theory Spec2Isabelle
  imports Complex_Main "HOL-Library.AList" "HOL-Library.Multiset" "HOL-Library.Sublist"
    "HOL-Library.Char_ord" "HOL-Library.List_Lexorder"
begin

section \<open>Strings\<close>

text \<open>
  A \<^typ>\<open>char\<close> stands for the UTF-16 code unit of the same number, so the model covers
  strings whose code units are below 256 (ASCII and Latin-1). The character classes are
  those of ECMAScript restricted to that range: \<^verbatim>\<open>\s\<close> and \<^verbatim>\<open>trim\<close> strip TAB, LF, VT, FF, CR,
  SPACE and NBSP; \<^verbatim>\<open>\w\<close> is \<^verbatim>\<open>[A-Za-z0-9_]\<close>; \<^verbatim>\<open>toLowerCase\<close> maps A-Z and the
  Latin-1 capitals U+00C0..U+00DE (without the multiplication sign U+00D7) 32 places up.
\<close>

definition isSpace :: "char \<Rightarrow> bool" where
  "isSpace c = (of_char c \<in> {9, 10, 11, 12, 13, 32, 160 :: nat})"

definition isWordChar :: "char \<Rightarrow> bool" where
  "isWordChar c = (let n = of_char c :: nat in
     (48 \<le> n \<and> n \<le> 57) \<or> (65 \<le> n \<and> n \<le> 90) \<or> n = 95 \<or> (97 \<le> n \<and> n \<le> 122))"

definition toLowerChar :: "char \<Rightarrow> char" where
  "toLowerChar c = (let n = of_char c :: nat in
     if (65 \<le> n \<and> n \<le> 90) \<or> (192 \<le> n \<and> n \<le> 222 \<and> n \<noteq> 215)
     then char_of (n + 32) else c)"

definition toLowerCase :: "string \<Rightarrow> string" where
  "toLowerCase s = map toLowerChar s"

definition trim :: "string \<Rightarrow> string" where
  "trim s = rev (dropWhile isSpace (rev (dropWhile isSpace s)))"

text \<open>\<^verbatim>\<open>s.includes(k)\<close>: \<open>k\<close> occurs in \<open>s\<close> as a contiguous substring.\<close>

fun includes_str :: "string \<Rightarrow> string \<Rightarrow> bool" where
  "includes_str [] k = (k = [])"
| "includes_str (c # cs) k = (prefix k (c # cs) \<or> includes_str cs k)"

text \<open>
  \<^verbatim>\<open>s.split(sep)\<close> for a one-character separator string: the pieces between the
  separators, empty pieces included, so the result has one more element than \<open>s\<close> has
  separators.
\<close>

fun split_char :: "char \<Rightarrow> string \<Rightarrow> string \<Rightarrow> string list" where
  "split_char sep cur [] = [rev cur]"
| "split_char sep cur (c # cs) =
     (if c = sep then rev cur # split_char sep [] cs else split_char sep (c # cur) cs)"

definition split_on :: "char \<Rightarrow> string \<Rightarrow> string list" where
  "split_on sep s = split_char sep [] s"

text \<open>\<^verbatim>\<open>s.split(/\s+/)\<close>: a separator is a maximal run of white space.\<close>

function split_ws :: "string \<Rightarrow> string \<Rightarrow> string list" where
  "split_ws cur [] = [rev cur]"
| "split_ws cur (c # cs) =
     (if isSpace c then rev cur # split_ws [] (dropWhile isSpace cs)
      else split_ws (c # cur) cs)"
  by pat_completeness auto
termination
  by (relation "measure (\<lambda>(cur, s). length s)")
     (auto simp: less_Suc_eq_le length_dropWhile_le)

section \<open>Sets and maps of the run-time\<close>

text \<open>
  A \<^verbatim>\<open>Set\<close> is the list of its members in insertion order, without repetition;
  \<open>new_Set\<close> is \<^verbatim>\<open>new Set(xs)\<close>, which keeps the first occurrence of each member.
  A \<^verbatim>\<open>Map\<close> is the list of its entries in insertion order; \<^verbatim>\<open>m.set(k, v)\<close> is
  \<^const>\<open>AList.update\<close> (overwrite in place, or append), \<^verbatim>\<open>m.get(k)\<close> is \<^const>\<open>map_of\<close>.
\<close>

fun new_Set :: "'a list \<Rightarrow> 'a list" where
  "new_Set [] = []"
| "new_Set (x # xs) = x # filter (\<lambda>y. y \<noteq> x) (new_Set xs)"

definition set_add :: "'a \<Rightarrow> 'a list \<Rightarrow> 'a list" where
  "set_add x s = (if x \<in> set s then s else s @ [x])"

section \<open>Tokenizer and duplicate detector (utils.ts)\<close>

definition STOP_WORDS :: "string list" where
  "STOP_WORDS = [
   ''a'', ''about'', ''above'', ''after'', ''again'', ''against'', ''all'', ''am'', ''an'',
    ''and'', ''any'', ''are'', ''aren't'', ''as'', ''at'', ''be'', ''because'', ''been'',
    ''before'', ''being'', ''below'', ''between'', ''both'', ''but'', ''by'', ''can'',
    ''can't'', ''cannot'', ''com'', ''could'', ''couldn't'', ''did'', ''didn't'', ''do'',
    ''does'', ''doesn't'', ''doing'', ''don't'', ''down'', ''during'', ''each'', ''few'',
    ''for'', ''from'', ''further'', ''had'', ''hadn't'', ''has'', ''hasn't'', ''have'',
    ''haven't'', ''having'', ''he'', ''he'd'', ''he'll'', ''he's'', ''her'', ''here'',
    ''here's'', ''hers'', ''herself'', ''him'', ''himself'', ''his'', ''how'', ''how's'',
    ''i'', ''i'd'', ''i'll'', ''i'm'', ''i've'', ''if'', ''in'', ''into'', ''is'',
    ''isn't'', ''it'', ''it's'', ''its'', ''itself'', ''just'', ''k'', ''let's'', ''like'',
    ''me'', ''more'', ''most'', ''mustn't'', ''my'', ''myself'', ''no'', ''nor'', ''not'',
    ''now'', ''of'', ''off'', ''on'', ''once'', ''only'', ''or'', ''other'', ''our'',
    ''ours'', ''ourselves'', ''out'', ''over'', ''own'', ''r'', ''same'', ''shan't'',
    ''she'', ''she'd'', ''she'll'', ''she's'', ''should'', ''shouldn't'', ''so'', ''some'',
    ''such'', ''than'', ''that'', ''that's'', ''the'', ''their'', ''theirs'', ''them'',
    ''themselves'', ''then'', ''there'', ''there's'', ''these'', ''they'', ''they'd'',
    ''they'll'', ''they're'', ''they've'', ''this'', ''those'', ''through'', ''to'',
    ''too'', ''under'', ''until'', ''up'', ''very'', ''was'', ''wasn't'', ''we'', ''we'd'',
    ''we'll'', ''we're'', ''we've'', ''were'', ''weren't'', ''what'', ''what's'', ''when'',
    ''when's'', ''where'', ''where's'', ''which'', ''while'', ''who'', ''who's'', ''whom'',
    ''why'', ''why's'', ''will'', ''with'', ''won't'', ''would'', ''wouldn't'', ''you'',
    ''you'd'', ''you'll'', ''you're'', ''you've'', ''your'', ''yours'', ''yourself'',
    ''yourselves''
  ]"

definition normalizeAndGetWords :: "string \<Rightarrow> string list" where
  "normalizeAndGetWords text =
     new_Set (filter (\<lambda>word. length word > 1 \<and> word \<notin> set STOP_WORDS)
       (split_ws [] (filter (\<lambda>c. isWordChar c \<or> isSpace c) (toLowerCase text))))"

definition extractSignificantKeywords :: "string \<Rightarrow> string list" where
  "extractSignificantKeywords text = normalizeAndGetWords text"

text \<open>
  The quotient of the two sizes is a double; it is modelled by the exact rational. For sets
  of fewer than \<open>2^53\<close> words rounding is monotone and keeps 0, 1/2 and 1, so every
  comparison made on the result has the same outcome.
\<close>

definition calculateJaccardSimilarity :: "string list \<Rightarrow> string list \<Rightarrow> rat" where
  "calculateJaccardSimilarity set1 set2 =
     (let intersectionSize = length (new_Set (filter (\<lambda>x. x \<in> set set2) set1));
          unionSize = length (new_Set (set1 @ set2))
      in if unionSize = 0 then 0 else of_nat intersectionSize / of_nat unionSize)"

section \<open>Platform\<close>

text \<open>
  The built-in classes \<^verbatim>\<open>URL\<close> and \<^verbatim>\<open>Date\<close> are parameters of the model. A parsed URL
  carries the components the code reads or writes; \<open>URL_parse\<close> is \<^verbatim>\<open>new URL(s)\<close>
  (\<open>None\<close> when the constructor throws), \<open>URL_toString\<close> is \<^verbatim>\<open>url.toString()\<close>,
  \<open>Date_getTime\<close> is \<^verbatim>\<open>new Date(s).getTime()\<close> in milliseconds (\<open>None\<close> is \<^verbatim>\<open>NaN\<close>, the
  time value of an invalid date) and \<open>Date_now\<close> is \<^verbatim>\<open>Date.now()\<close>.
\<close>

record URL =
  origin :: string
  hostname :: string
  pathname :: string
  searchParams :: "(string \<times> string) list"
  hash :: string

record Platform =
  URL_parse :: "string \<Rightarrow> URL option"
  URL_toString :: "URL \<Rightarrow> string"
  Date_getTime :: "string \<Rightarrow> int option"
  Date_now :: int

section \<open>URL helpers (utils.ts)\<close>

definition paramsToRemove :: "string list" where
  "paramsToRemove = [''utm_source'', ''utm_medium'', ''utm_campaign'', ''utm_term'',
     ''utm_content'', ''ref'', ''mc_cid'', ''mc_eid'', ''fbclid'', ''gclid'']"

definition normalizeUrl :: "Platform \<Rightarrow> string \<Rightarrow> string" where
  "normalizeUrl P urlString =
     (case URL_parse P urlString of
        None \<Rightarrow> urlString
      | Some url0 \<Rightarrow>
          (let url1 = url0\<lparr>searchParams :=
                  filter (\<lambda>(name, v). name \<notin> set paramsToRemove) (searchParams url0)\<rparr>;
               url2 = url1\<lparr>hash := []\<rparr>;
               url3 = (if length (pathname url2) > 1 \<and> last (pathname url2) = CHR ''/''
                       then url2\<lparr>pathname := butlast (pathname url2)\<rparr> else url2);
               url4 = url3\<lparr>searchParams := sort_key fst (searchParams url3)\<rparr>
           in URL_toString P url4))"

definition getDomainFromUrl :: "Platform \<Rightarrow> string \<Rightarrow> string" where
  "getDomainFromUrl P urlString =
     (case URL_parse P urlString of
        None \<Rightarrow> []
      | Some url \<Rightarrow>
          (let h = toLowerCase (hostname url)
           in if prefix ''www.'' h then drop 4 h else h))"

section \<open>Data (types.ts)\<close>

record PostedItem =
  id_p :: string
  title_p :: string
  url :: string
  postedUrl :: string
  postedAt :: int

record FetchedArticle =
  id_a :: string
  title :: string
  link :: string
  sourceName :: string
  pubDate :: string
  description :: string

record RedditAuth =
  token :: "string option"

record AutomationSettings =
  targetSubreddit :: string
  checkInterval :: int
  postLimit :: int
  defaultFlairId :: string
  rssFeedUrls :: string
  includeKeywords :: string
  excludeKeywords :: string
  sourceAuthorityScores :: string
  minimumScore :: int
  useProactiveDuplicateCheck :: bool
  useAdaptiveLearning :: bool

record ScoreDetails =
  base :: int
  titleBoost :: int
  recency :: int
  sourceAuthority :: int
  learnedBias :: int
  total_sc :: int

section \<open>Duplicate detector (utils.ts)\<close>

text \<open>
  The inner \<^verbatim>\<open>for\<close> loop leaves at the first history title that reaches the threshold, so
  an article is reported when some history title reaches it.
\<close>

definition findLocalSemanticDuplicates ::
  "FetchedArticle list \<Rightarrow> string list \<Rightarrow> rat \<Rightarrow> string list" where
  "findLocalSemanticDuplicates newArticles historyTitles similarityThreshold =
     (if newArticles = [] \<or> historyTitles = [] then []
      else
        (let historyTitleWordSets = map normalizeAndGetWords historyTitles
         in map id_a
              (filter (\<lambda>article.
                 list_ex (\<lambda>historySet.
                    calculateJaccardSimilarity (normalizeAndGetWords (title article)) historySet
                      \<ge> similarityThreshold) historyTitleWordSets)
               newArticles)))"

section \<open>Scoring engine (utils.ts)\<close>

definition isDigit :: "char \<Rightarrow> bool" where
  "isDigit c = (let n = of_char c :: nat in 48 \<le> n \<and> n \<le> 57)"

definition digitValue :: "char \<Rightarrow> int" where
  "digitValue c = int (of_char c) - 48"

text \<open>
  \<^verbatim>\<open>parseInt(s, 10)\<close>: leading white space is skipped, a sign is read, and the longest
  prefix of decimal digits is the value; with no digit the result is \<^verbatim>\<open>NaN\<close> (\<open>None\<close>).
  Scores are integers (exact as doubles below \<open>2^53\<close>).
\<close>

definition parseInt :: "string \<Rightarrow> int option" where
  "parseInt s =
     (let t = dropWhile isSpace s;
          neg = (t \<noteq> [] \<and> hd t = CHR ''-'');
          u = (if t \<noteq> [] \<and> (hd t = CHR ''-'' \<or> hd t = CHR ''+'') then tl t else t);
          z = takeWhile isDigit u
      in if z = [] then None
         else Some ((if neg then - 1 else 1) * foldl (\<lambda>acc d. 10 * acc + digitValue d) 0 z))"

text \<open>The body of the \<^verbatim>\<open>forEach\<close> over the trimmed, lower-cased lines.\<close>

definition parseLine :: "int \<Rightarrow> string \<Rightarrow> (string \<times> int) list \<Rightarrow> (string \<times> int) list" where
  "parseLine defaultScore line keywordMap =
     (let parts = split_on CHR '':'' line
      in if length parts = 2 then
           (let keyword = trim (parts ! 0);
                score = parseInt (trim (parts ! 1))
            in case score of
                 Some n \<Rightarrow> if keyword \<noteq> [] then AList.update keyword n keywordMap else keywordMap
               | None \<Rightarrow> keywordMap)
         else if line \<noteq> [] then AList.update line defaultScore keywordMap
         else keywordMap)"

definition parseKeywordsWithScores :: "string \<Rightarrow> int \<Rightarrow> (string \<times> int) list" where
  "parseKeywordsWithScores keywordsString defaultScore =
     fold (parseLine defaultScore)
       (map (\<lambda>line. toLowerCase (trim line))
          (filter (\<lambda>line. line \<noteq> []) (split_on (CHR 0x0A) keywordsString)))
       []"

text \<open>A comparison with \<^verbatim>\<open>NaN\<close> is false.\<close>

fun num_le :: "rat option \<Rightarrow> rat \<Rightarrow> bool" where
  "num_le None y = False"
| "num_le (Some x) y = (x \<le> y)"

text \<open>One round of the keyword loop on the pair \<open>(baseScore, titleBoost)\<close>.\<close>

definition keywordStep ::
  "string \<Rightarrow> string \<Rightarrow> string \<times> int \<Rightarrow> int \<times> int \<Rightarrow> int \<times> int" where
  "keywordStep titleLower descriptionLower entry acc =
     (case entry of (keyword, v) \<Rightarrow>
      case acc of (baseScore, tBoost) \<Rightarrow>
        (let inTitle = includes_str titleLower keyword;
             inDescription = includes_str descriptionLower keyword
         in if inTitle \<or> inDescription then
              (baseScore + v,
               if inTitle \<and> v > 0 then tBoost + \<lceil>(of_int v :: rat) * (1 / 2)\<rceil> else tBoost)
            else (baseScore, tBoost)))"

text \<open>The recency step of the scorer, on the publication date of the article.\<close>

definition recencyBoost :: "Platform \<Rightarrow> string \<Rightarrow> int" where
  "recencyBoost P d =
     (let hoursAgo = map_option (\<lambda>t. (of_int (Date_now P - t) :: rat) / (1000 * 60 * 60))
                       (Date_getTime P d)
      in if num_le hoursAgo 2 then 5
         else if num_le hoursAgo 6 then 3
         else if num_le hoursAgo 12 then 1
         else 0)"

definition calculateArticleScore ::
  "Platform \<Rightarrow> FetchedArticle \<Rightarrow> (string \<times> int) list \<Rightarrow> (string \<times> int) list option
     \<Rightarrow> (string \<times> int) list option \<Rightarrow> ScoreDetails" where
  "calculateArticleScore P article scoredKeywords sourceAuthorityMap learnedBiasMap =
     (let titleLower = toLowerCase (title article);
          descriptionLower = toLowerCase (description article);
          (baseScore, tBoost) = fold (keywordStep titleLower descriptionLower) scoredKeywords (0, 0);
          rec = recencyBoost P (pubDate article);
          srcAuthority =
            (case sourceAuthorityMap of
               None \<Rightarrow> 0
             | Some m \<Rightarrow>
                 (let domain = getDomainFromUrl P (link article)
                  in if domain \<noteq> [] then (case map_of m domain of Some v \<Rightarrow> v | None \<Rightarrow> 0)
                     else 0));
          lBias =
            (case learnedBiasMap of
               None \<Rightarrow> 0
             | Some m \<Rightarrow>
                 fold (\<lambda>word acc. case map_of m word of Some v \<Rightarrow> acc + v | None \<Rightarrow> acc)
                   (normalizeAndGetWords (title article)) 0)
      in \<lparr>base = baseScore, titleBoost = tBoost, recency = rec, sourceAuthority = srcAuthority,
          learnedBias = lBias,
          total_sc = baseScore + tBoost + rec + srcAuthority + lBias\<rparr>)"


section \<open>Sorting with a comparator\<close>

text \<open>
  \<^verbatim>\<open>Array.prototype.sort(comparefn)\<close>. The language reads a \<^verbatim>\<open>NaN\<close> returned by the comparator
  as \<open>+0\<close> (\<open>SortCompare\<close>) and requires the sort to be stable. For a consistent comparator
  this fixes the result, and the stable insertion sort below computes it. When the
  comparator is not consistent the language leaves the order to the implementation; the
  model then is this insertion sort, which moves an element only across a neighbour that
  compares greater.
\<close>

definition SortCompare :: "('a \<Rightarrow> 'a \<Rightarrow> int option) \<Rightarrow> 'a \<Rightarrow> 'a \<Rightarrow> int" where
  "SortCompare comparefn x y = (case comparefn x y of None \<Rightarrow> 0 | Some v \<Rightarrow> v)"

fun insertSorted :: "('a \<Rightarrow> 'a \<Rightarrow> int option) \<Rightarrow> 'a \<Rightarrow> 'a list \<Rightarrow> 'a list" where
  "insertSorted comparefn x [] = [x]"
| "insertSorted comparefn x (y # ys) =
     (if SortCompare comparefn x y \<le> 0 then x # y # ys
      else y # insertSorted comparefn x ys)"

definition Array_sort :: "('a \<Rightarrow> 'a \<Rightarrow> int option) \<Rightarrow> 'a list \<Rightarrow> 'a list" where
  "Array_sort comparefn xs = foldr (insertSorted comparefn) xs []"

text \<open>\<^verbatim>\<open>xs.slice(0, n)\<close> for an integer \<open>n\<close>: a negative end counts from the end.\<close>

definition slice0 :: "int \<Rightarrow> 'a list \<Rightarrow> 'a list" where
  "slice0 n xs = (if n < 0 then take (nat (int (length xs) + n)) xs else take (nat n) xs)"

text \<open>\<^verbatim>\<open>xs.findIndex(p)\<close>, with \<open>None\<close> for \<open>-1\<close>.\<close>

fun findIndex :: "('a \<Rightarrow> bool) \<Rightarrow> 'a list \<Rightarrow> nat option" where
  "findIndex p [] = None"
| "findIndex p (x # xs) = (if p x then Some 0 else map_option Suc (findIndex p xs))"

section \<open>Application state and cycles (App.tsx)\<close>

text \<open>
  The component state is a record and every handler returns the new state; the log and the
  status line are not part of it. A local variable of a handler that a property speaks
  about (\<^verbatim>\<open>combinedScoredKeywords\<close>, \<^verbatim>\<open>urlsToExclude\<close>, \<^verbatim>\<open>uniqueNewArticles\<close>,
  \<^verbatim>\<open>uniqueArticles\<close>, \<^verbatim>\<open>articlesToProcess\<close>, \<^verbatim>\<open>articlesToPost\<close>) is a definition under the
  name of the variable.
\<close>

definition MAX_PENDING_ARTICLES :: nat where
  "MAX_PENDING_ARTICLES = 50"

record AppState =
  redditAuth :: "RedditAuth option"
  isAutomationRunning :: bool
  automationSettings :: AutomationSettings
  postingHistory :: "PostedItem list"
  pendingArticles :: "FetchedArticle list"
  removedArticleUrls :: "string list"
  learnedBiases :: "(string \<times> int) list"

subsection \<open>scoreAndFilterArticles\<close>

definition combinedScoredKeywords :: "AutomationSettings \<Rightarrow> (string \<times> int) list" where
  "combinedScoredKeywords settings =
     (let inclusionMap = parseKeywordsWithScores (includeKeywords settings) 1;
          exclusionMap = parseKeywordsWithScores (excludeKeywords settings) 1;
          combined1 = fold (\<lambda>(keyword, score) m. AList.update keyword \<bar>score\<bar> m) inclusionMap []
      in fold (\<lambda>(keyword, score) m. AList.update keyword (- \<bar>score\<bar>) m) exclusionMap combined1)"

text \<open>The difference of two time values; \<^verbatim>\<open>NaN\<close> when either date is invalid.\<close>

definition timeDiff :: "Platform \<Rightarrow> string \<Rightarrow> string \<Rightarrow> int option" where
  "timeDiff P d1 d2 =
     (case (Date_getTime P d1, Date_getTime P d2) of
        (Some t1, Some t2) \<Rightarrow> Some (t1 - t2)
      | _ \<Rightarrow> None)"

definition scoreAndFilterArticles ::
  "Platform \<Rightarrow> (string \<times> int) list \<Rightarrow> FetchedArticle list \<Rightarrow> AutomationSettings
     \<Rightarrow> FetchedArticle list" where
  "scoreAndFilterArticles P biases articles settings =
     (let sourceAuthorityMap = parseKeywordsWithScores (sourceAuthorityScores settings) 0;
          combined = combinedScoredKeywords settings;
          effectiveBiases = (if useAdaptiveLearning settings then Some biases else None);
          scoredArticles =
            map (\<lambda>article.
                   (article,
                    calculateArticleScore P article combined (Some sourceAuthorityMap)
                      effectiveBiases))
                articles;
          filteredArticles =
            filter (\<lambda>(article, scoreDetails). total_sc scoreDetails \<ge> minimumScore settings)
              scoredArticles;
          sortedArticles =
            Array_sort
              (\<lambda>(a, sa) (b, sb).
                 if total_sc sb \<noteq> total_sc sa then Some (total_sc sb - total_sc sa)
                 else timeDiff P (pubDate b) (pubDate a))
              filteredArticles
      in map fst sortedArticles)"

subsection \<open>runFetchCycle\<close>

definition urlsToExclude :: "Platform \<Rightarrow> AppState \<Rightarrow> string list" where
  "urlsToExclude P s =
     fold set_add (removedArticleUrls s)
       (new_Set (map (\<lambda>item. normalizeUrl P (url item)) (postingHistory s) @
                 map (\<lambda>item. normalizeUrl P (link item)) (pendingArticles s)))"

definition uniqueNewArticles :: "Platform \<Rightarrow> FetchedArticle list \<Rightarrow> AppState \<Rightarrow> FetchedArticle list" where
  "uniqueNewArticles P newArticles s =
     filter (\<lambda>article. normalizeUrl P (link article) \<notin> set (urlsToExclude P s)) newArticles"

text \<open>
  The \<^verbatim>\<open>filter\<close> with \<^verbatim>\<open>findIndex\<close>: the element at index \<open>i\<close> stays when \<open>i\<close> is the first
  index whose element has the same normalized link.
\<close>

definition uniqueArticles :: "Platform \<Rightarrow> FetchedArticle list \<Rightarrow> FetchedArticle list" where
  "uniqueArticles P combined =
     map snd
       (filter (\<lambda>(index, article).
                  Some index =
                    findIndex (\<lambda>a. normalizeUrl P (link a) = normalizeUrl P (link article)) combined)
          (enumerate 0 combined))"

text \<open>
  Lines 294 to 314: the queue that is saved, or \<open>None\<close> when no fetched article survives
  the exclusion and the cycle returns without touching the queue.
\<close>

definition mergeFetched :: "Platform \<Rightarrow> FetchedArticle list \<Rightarrow> AppState \<Rightarrow> FetchedArticle list option" where
  "mergeFetched P newArticles s =
     (let fresh = uniqueNewArticles P newArticles s
      in if fresh = [] then None
         else
           (let combined = pendingArticles s @ fresh;
                sortedArticles =
                  Array_sort (\<lambda>a b. timeDiff P (pubDate b) (pubDate a)) (uniqueArticles P combined)
            in Some (take MAX_PENDING_ARTICLES sortedArticles)))"

text \<open>\<open>newArticles\<close> is the list the feed service resolved with.\<close>

definition runFetchCycle :: "Platform \<Rightarrow> FetchedArticle list \<Rightarrow> AppState \<Rightarrow> AppState" where
  "runFetchCycle P newArticles s =
     (if newArticles = [] then s
      else case mergeFetched P newArticles s of
             None \<Rightarrow> s
           | Some updatedPending \<Rightarrow> s\<lparr>pendingArticles := updatedPending\<rparr>)"

subsection \<open>runPostingCycle\<close>

text \<open>
  What \<^verbatim>\<open>await redditService.submitPost(...)\<close> does: it resolves with the URL of the post,
  or rejects with an \<^verbatim>\<open>Error\<close> carrying a message, or rejects with another value.
\<close>

datatype submit_outcome = Resolved string | Rejected_Error string | Rejected_Other

text \<open>
  The body of the batch loop for one article: \<open>outcome\<close> is what the submission did and
  \<open>now\<close> the value of \<^verbatim>\<open>Date.now()\<close> read after it. The result is the history entry that
  is pushed (then the article is also pushed to \<^verbatim>\<open>articlesPostedThisCycle\<close>), or \<open>None\<close> when
  the failure is only logged.
\<close>

definition submitAttempt :: "submit_outcome \<Rightarrow> int \<Rightarrow> FetchedArticle \<Rightarrow> PostedItem option" where
  "submitAttempt outcome now article =
     (case outcome of
        Resolved postUrl \<Rightarrow>
          Some \<lparr>id_p = link article, title_p = title article, url = link article,
                postedUrl = postUrl, postedAt = now\<rparr>
      | failure \<Rightarrow>
          (let errorMsg = (case failure of Rejected_Error m \<Rightarrow> m | _ \<Rightarrow> ''Unknown error'')
           in if includes_str (toLowerCase errorMsg) ''already been submitted'' then
                Some \<lparr>id_p = link article, title_p = title article, url = link article,
                      postedUrl = ''Duplicate'', postedAt = now\<rparr>
              else None))"

text \<open>
  The batch loop. \<open>submitPost i\<close> is the outcome of the \<open>i\<close>-th submission of the cycle and
  \<open>clock i\<close> the time read after it. The accumulator is the pair
  \<open>(successfulPosts, articlesPostedThisCycle)\<close>.
\<close>

fun postLoop ::
  "(nat \<Rightarrow> submit_outcome) \<Rightarrow> (nat \<Rightarrow> int) \<Rightarrow> nat \<Rightarrow> FetchedArticle list
     \<Rightarrow> PostedItem list \<times> FetchedArticle list \<Rightarrow> PostedItem list \<times> FetchedArticle list" where
  "postLoop submitPost clock i [] acc = acc"
| "postLoop submitPost clock i (article # rest) (successfulPosts, posted) =
     (case submitAttempt (submitPost i) (clock i) article of
        Some entry \<Rightarrow>
          postLoop submitPost clock (Suc i) rest (successfulPosts @ [entry], posted @ [article])
      | None \<Rightarrow> postLoop submitPost clock (Suc i) rest (successfulPosts, posted))"

text \<open>The working set after the duplicate check (\<^verbatim>\<open>articlesToProcess\<close>).\<close>

definition articlesToProcess :: "Platform \<Rightarrow> AppState \<Rightarrow> FetchedArticle list" where
  "articlesToProcess P s =
     (if useProactiveDuplicateCheck (automationSettings s) then
        (let historyTitles = map title_p (take 50 (postingHistory s));
             duplicateArticleIds =
               findLocalSemanticDuplicates (pendingArticles s) historyTitles (1 / 2)
         in if duplicateArticleIds \<noteq> [] then
              (let duplicateUrlSet = new_Set (map (normalizeUrl P) duplicateArticleIds)
               in filter (\<lambda>a. normalizeUrl P (link a) \<notin> set duplicateUrlSet) (pendingArticles s))
            else pendingArticles s)
      else pendingArticles s)"

definition articlesToPost :: "Platform \<Rightarrow> AppState \<Rightarrow> FetchedArticle list" where
  "articlesToPost P s =
     slice0 (postLimit (automationSettings s))
       (scoreAndFilterArticles P (learnedBiases s) (articlesToProcess P s) (automationSettings s))"

definition runPostingCycle ::
  "Platform \<Rightarrow> (nat \<Rightarrow> submit_outcome) \<Rightarrow> (nat \<Rightarrow> int) \<Rightarrow> AppState \<Rightarrow> AppState" where
  "runPostingCycle P submitPost clock s =
     (if (case redditAuth s of None \<Rightarrow> True
          | Some auth \<Rightarrow> (case token auth of None \<Rightarrow> True | Some t \<Rightarrow> t = []))
         \<or> targetSubreddit (automationSettings s) = []
      then s\<lparr>isAutomationRunning := False\<rparr>
      else if pendingArticles s = [] then s
      else
        (let working = articlesToProcess P s;
             batch = articlesToPost P s
         in if batch = [] then s\<lparr>pendingArticles := working\<rparr>
            else
              (let (successfulPosts, posted) = postLoop submitPost clock 0 batch ([], [])
               in if posted \<noteq> [] then
                    (let postedLinks = new_Set (map (\<lambda>a. normalizeUrl P (link a)) posted);
                         newPending =
                           filter (\<lambda>a. normalizeUrl P (link a) \<notin> set postedLinks) working
                     in s\<lparr>pendingArticles := newPending,
                          postingHistory := successfulPosts @ postingHistory s\<rparr>)
                  else s)))"

subsection \<open>handleRemoveArticleFromQueue\<close>

definition handleRemoveArticleFromQueue :: "Platform \<Rightarrow> string \<Rightarrow> AppState \<Rightarrow> AppState" where
  "handleRemoveArticleFromQueue P articleId s =
     (case find (\<lambda>a. id_a a = articleId) (pendingArticles s) of
        None \<Rightarrow> s
      | Some articleToRemove \<Rightarrow>
          (let newPending = filter (\<lambda>a. id_a a \<noteq> articleId) (pendingArticles s);
               newRemovedUrls = set_add (normalizeUrl P (link articleToRemove)) (removedArticleUrls s);
               s1 = s\<lparr>pendingArticles := newPending, removedArticleUrls := newRemovedUrls\<rparr>
           in if useAdaptiveLearning (automationSettings s) then
                (let keywords = extractSignificantKeywords (title articleToRemove);
                     newBiases =
                       fold (\<lambda>word m.
                               AList.update word
                                 ((case map_of m word of Some v \<Rightarrow> v | None \<Rightarrow> 0) - 1) m)
                         keywords (learnedBiases s)
                 in s1\<lparr>learnedBiases := newBiases\<rparr>)
              else s1))"

section \<open>Queue order\<close>

text \<open>
  The queue is sorted by publication timestamp, most recent first, when no entry comes
  before an entry with a later time value. An entry without a time value (an invalid date)
  is not constrained.
\<close>

definition sortedByPubDateDesc :: "Platform \<Rightarrow> FetchedArticle list \<Rightarrow> bool" where
  "sortedByPubDateDesc P q =
     sorted_wrt (\<lambda>a b. case (Date_getTime P (pubDate a), Date_getTime P (pubDate b)) of
                          (Some ta, Some tb) \<Rightarrow> tb \<le> ta
                        | _ \<Rightarrow> True) q"

section \<open>Example inputs\<close>

text \<open>
  The platform of the examples. Their links are relative references such as \<^verbatim>\<open>a\<close> and \<^verbatim>\<open>b\<close>,
  which \<^verbatim>\<open>new URL\<close> rejects, and their dates are the two ISO strings below or a string that is
  no date; the platform is only used on these.
\<close>

definition exPlatform :: Platform where
  "exPlatform =
     \<lparr>URL_parse = (\<lambda>s. None),
      URL_toString = (\<lambda>u. origin u @ pathname u @ hash u),
      Date_getTime =
        (\<lambda>s. if s = ''2024-01-01T00:00:00.000Z'' then Some 1704067200000
              else if s = ''2024-01-02T00:00:00.000Z'' then Some 1704153600000
              else None),
      Date_now = 1704157200000\<rparr>"

definition exSettings :: AutomationSettings where
  "exSettings =
     \<lparr>targetSubreddit = ''gaming'', checkInterval = 15, postLimit = 2, defaultFlairId = [],
      rssFeedUrls = [], includeKeywords = ''release date: 10'', excludeKeywords = ''deal: 10'',
      sourceAuthorityScores = [], minimumScore = 5, useProactiveDuplicateCheck = True,
      useAdaptiveLearning = True\<rparr>"

definition exArticle :: "string \<Rightarrow> string \<Rightarrow> string \<Rightarrow> string \<Rightarrow> FetchedArticle" where
  "exArticle l t d descr =
     \<lparr>id_a = l, title = t, link = l, sourceName = ''Feed'', pubDate = d, description = descr\<rparr>"

definition exState :: "PostedItem list \<Rightarrow> FetchedArticle list \<Rightarrow> AppState" where
  "exState history queue =
     \<lparr>redditAuth = Some \<lparr>token = Some ''t0''\<rparr>, isAutomationRunning = True,
      automationSettings = exSettings, postingHistory = history, pendingArticles = queue,
      removedArticleUrls = [], learnedBiases = []\<rparr>"

text \<open>Submission outcomes and clock of the examples.\<close>

definition exSubmitOk :: "nat \<Rightarrow> submit_outcome" where
  "exSubmitOk i = Resolved ''https://www.reddit.com/r/gaming/comments/1''"

definition exSubmitFail :: "nat \<Rightarrow> submit_outcome" where
  "exSubmitFail i = Rejected_Other"

definition exSubmitMixed :: "nat \<Rightarrow> submit_outcome" where
  "exSubmitMixed i =
     (if i = 0 then Rejected_Error ''That link has already been submitted''
      else Rejected_Error ''RATELIMIT'')"

definition exClock :: "nat \<Rightarrow> int" where
  "exClock i = 1704157200000 + int i"

definition exPosted :: PostedItem where
  "exPosted =
     \<lparr>id_p = ''h'', title_p = ''Zelda Launch Trailer'', url = ''h'',
      postedUrl = ''https://www.reddit.com/r/gaming/comments/0'', postedAt = 1704067200000\<rparr>"

text \<open>A queue whose first article repeats the title of a posted item.\<close>

definition exZelda :: FetchedArticle where
  "exZelda = exArticle ''a'' ''Zelda launch trailer!'' ''2024-01-01T00:00:00.000Z'' []"

definition exMetroid :: FetchedArticle where
  "exMetroid = exArticle ''b'' ''Metroid release date'' ''2024-01-02T00:00:00.000Z'' []"

definition exStateFlagged1 :: AppState where
  "exStateFlagged1 = exState [exPosted] [exZelda]"

definition exStateFlagged2 :: AppState where
  "exStateFlagged2 = exState [exPosted] [exZelda, exMetroid]"

text \<open>A queue of two articles that both pass the minimum score.\<close>

definition exRelease :: FetchedArticle where
  "exRelease = exArticle ''a'' ''Zelda release date'' ''2024-01-01T00:00:00.000Z'' []"

definition exStateBatch :: AppState where
  "exStateBatch = exState [] [exRelease, exMetroid]"

text \<open>Articles of the fetch examples; \<open>exFirstAgain\<close> is \<open>exFirst\<close> fetched once more.\<close>

definition exFirst :: FetchedArticle where
  "exFirst = exArticle ''a'' ''First'' ''2024-01-01T00:00:00.000Z'' ''queued description''"

definition exFirstAgain :: FetchedArticle where
  "exFirstAgain = exArticle ''a'' ''First'' ''2024-01-01T00:00:00.000Z'' ''fetched description''"

definition exSecond :: FetchedArticle where
  "exSecond = exArticle ''b'' ''Second'' ''2024-01-02T00:00:00.000Z'' []"

text \<open>Fifty articles of 2 January with pairwise different links.\<close>

definition exNewer :: "FetchedArticle list" where
  "exNewer = map (\<lambda>(x, y). exArticle [x, y] ''Newer'' ''2024-01-02T00:00:00.000Z'' [])
               (List.product ''nopqr'' ''0123456789'')"

section \<open>Sets of words\<close>

lemma set_new_Set: "set (new_Set xs) = set xs"
  by (induction xs) auto

lemma distinct_new_Set: "distinct (new_Set xs)"
  by (induction xs) (auto simp: set_new_Set)

lemma length_new_Set: "length (new_Set xs) = card (set xs)"
  using distinct_card[OF distinct_new_Set, of xs] by (simp add: set_new_Set)

lemma jaccard_card:
  "calculateJaccardSimilarity A B =
     (if set A \<union> set B = {} then 0
      else of_nat (card (set A \<inter> set B)) / of_nat (card (set A \<union> set B)))"
  by (auto simp: calculateJaccardSimilarity_def Let_def length_new_Set Int_def
           intro!: arg_cong[where f = card])

text \<open>
  Claim C9. For all word sets \<open>A\<close> and \<open>B\<close> the Jaccard similarity of the duplicate detector
  lies between 0 and 1, is 0 when the union of \<open>A\<close> and \<open>B\<close> is empty, and is 1 when \<open>A\<close>
  and \<open>B\<close> have the same members and \<open>A\<close> is not empty.
\<close>

theorem C9_jaccard_bounds:
  "0 \<le> calculateJaccardSimilarity A B \<and> calculateJaccardSimilarity A B \<le> 1
   \<and> (set A \<union> set B = {} \<longrightarrow> calculateJaccardSimilarity A B = 0)
   \<and> (set A = set B \<and> A \<noteq> [] \<longrightarrow> calculateJaccardSimilarity A B = 1)"
proof -
  have le: "card (set A \<inter> set B) \<le> card (set A \<union> set B)"
    by (rule card_mono) auto
  show ?thesis using le
    by (auto simp: jaccard_card divide_le_eq_1 card_gt_0_iff)
qed

theorem C9_jaccard_bounds_witness:
  "calculateJaccardSimilarity [] [] = 0
   \<and> calculateJaccardSimilarity [''zelda'', ''launch''] [''launch'', ''zelda''] = 1"
proof -
  have h1: "set ([] :: string list) \<union> set [] = {}" by simp
  have h2: "set [''zelda'', ''launch''] = set [''launch'', ''zelda''] \<and> [''zelda'', ''launch''] \<noteq> []"
    by auto
  show ?thesis
    using C9_jaccard_bounds[of "[]" "[]"]
      C9_jaccard_bounds[of "[''zelda'', ''launch'']" "[''launch'', ''zelda'']"] h1 h2
    by blast
qed

section \<open>Keyword parsing\<close>

lemma length_split_char: "length (split_char sep cur s) = Suc (count_list s sep)"
  by (induction s arbitrary: cur) auto

lemma split_char_nosep: "sep \<notin> set s \<Longrightarrow> split_char sep cur s = [rev cur @ s]"
  by (induction s arbitrary: cur) auto

lemma split_char_first:
  "sep \<notin> set a \<Longrightarrow> split_char sep cur (a @ sep # b) = (rev cur @ a) # split_char sep [] b"
  by (induction a arbitrary: cur) auto

lemma split_on_one:
  "sep \<notin> set a \<Longrightarrow> sep \<notin> set b \<Longrightarrow> split_on sep (a @ sep # b) = [a, b]"
  by (simp add: split_on_def split_char_first split_char_nosep)

lemma parse_lines:
  "split_on (CHR 0x0A) s = before @ raw # after \<Longrightarrow> raw \<noteq> [] \<Longrightarrow>
   parseKeywordsWithScores s d =
     fold (parseLine d) (map (\<lambda>line. toLowerCase (trim line)) (filter (\<lambda>line. line \<noteq> []) after))
       (parseLine d (toLowerCase (trim raw))
          (fold (parseLine d) (map (\<lambda>line. toLowerCase (trim line)) (filter (\<lambda>line. line \<noteq> []) before)) []))"
  by (simp add: parseKeywordsWithScores_def)

lemma trim_Nil: "trim [] = []"
  by (simp add: trim_def)

lemma norm_nonempty: "toLowerCase (trim raw) \<noteq> [] \<Longrightarrow> raw \<noteq> []"
  by (auto simp: trim_Nil toLowerCase_def)

lemma keys_mono_parseLine: "fst ` set m \<subseteq> fst ` set (parseLine d l m)"
  by (simp add: parseLine_def Let_def dom_update subset_insertI split: option.splits)

lemma keys_mono_fold_parseLine: "fst ` set m \<subseteq> fst ` set (fold (parseLine d) ls m)"
proof (induction ls arbitrary: m)
  case Nil
  then show ?case by simp
next
  case (Cons l ls)
  have "fst ` set m \<subseteq> fst ` set (parseLine d l m)" by (rule keys_mono_parseLine)
  also have "\<dots> \<subseteq> fst ` set (fold (parseLine d) ls (parseLine d l m))" by (rule Cons.IH)
  finally show ?case by simp
qed

text \<open>
  Claim C10. In keyword parsing a line with exactly one colon whose trimmed part after the
  colon does not parse as an integer contributes no entry to the returned map: the map is
  the one the other lines give, and the line gets no default score. A line that is not
  empty after trimming and whose number of colons is not one (none, or two or more) is
  stored whole, trimmed and in lower case, with the default score at its place in the
  input, so that it is a key of the returned map, with the default score when it is the
  last line. Both are stated for one round of the line loop (\<open>parseLine\<close>), for a line
  anywhere in the input of \<open>parseKeywordsWithScores\<close>, and for an input of one line; the
  inputs \<^verbatim>\<open>deal:\<close> and \<^verbatim>\<open>deal: high\<close> give the empty map.
\<close>

theorem C10_line_dropped_or_default:
  "(CHR '':'' \<notin> set a \<and> CHR '':'' \<notin> set b \<and> parseInt (trim b) = None
      \<longrightarrow> parseLine d (a @ CHR '':'' # b) m = m)
   \<and> (line \<noteq> [] \<and> count_list line CHR '':'' \<noteq> 1
      \<longrightarrow> parseLine d line m = AList.update line d m)
   \<and> (split_on (CHR 0x0A) keywordsString = before @ raw # after
       \<and> toLowerCase (trim raw) = a @ CHR '':'' # b
       \<and> CHR '':'' \<notin> set a \<and> CHR '':'' \<notin> set b \<and> parseInt (trim b) = None
      \<longrightarrow> parseKeywordsWithScores keywordsString d =
            fold (parseLine d)
              (map (\<lambda>line. toLowerCase (trim line)) (filter (\<lambda>line. line \<noteq> []) (before @ after))) [])
   \<and> (split_on (CHR 0x0A) keywordsString = before @ raw # after
       \<and> toLowerCase (trim raw) \<noteq> [] \<and> count_list (toLowerCase (trim raw)) CHR '':'' \<noteq> 1
      \<longrightarrow> parseKeywordsWithScores keywordsString d =
            fold (parseLine d)
              (map (\<lambda>line. toLowerCase (trim line)) (filter (\<lambda>line. line \<noteq> []) after))
              (AList.update (toLowerCase (trim raw)) d
                 (fold (parseLine d)
                    (map (\<lambda>line. toLowerCase (trim line)) (filter (\<lambda>line. line \<noteq> []) before)) []))
          \<and> toLowerCase (trim raw) \<in> fst ` set (parseKeywordsWithScores keywordsString d)
          \<and> (after = [] \<longrightarrow>
                map_of (parseKeywordsWithScores keywordsString d) (toLowerCase (trim raw)) = Some d))
   \<and> (CHR 0x0A \<notin> set raw \<and> toLowerCase (trim raw) \<noteq> []
       \<and> count_list (toLowerCase (trim raw)) CHR '':'' \<noteq> 1
      \<longrightarrow> parseKeywordsWithScores raw d = [(toLowerCase (trim raw), d)])
   \<and> (CHR 0x0A \<notin> set raw \<and> toLowerCase (trim raw) = a @ CHR '':'' # b
       \<and> CHR '':'' \<notin> set a \<and> CHR '':'' \<notin> set b \<and> parseInt (trim b) = None
      \<longrightarrow> parseKeywordsWithScores raw d = [])
   \<and> parseKeywordsWithScores ''deal:'' d = []
   \<and> parseKeywordsWithScores ''deal: high'' d = []"
proof -
  let ?n = "\<lambda>line. toLowerCase (trim line)"
  let ?ne = "\<lambda>line. line \<noteq> ([] :: string)"
  have drop_line: "parseLine d (a @ CHR '':'' # b) m' = m'"
    if "CHR '':'' \<notin> set a" "CHR '':'' \<notin> set b" "parseInt (trim b) = None" for m'
    using that by (simp add: parseLine_def split_on_one)
  have ins_line: "parseLine d l m' = AList.update l d m'"
    if "l \<noteq> []" "count_list l CHR '':'' \<noteq> 1" for l m'
    using that by (simp add: parseLine_def split_on_def length_split_char)
  have c1: "parseLine d (a @ CHR '':'' # b) m = m"
    if "CHR '':'' \<notin> set a \<and> CHR '':'' \<notin> set b \<and> parseInt (trim b) = None"
    using that drop_line by blast
  have c2: "parseLine d line m = AList.update line d m"
    if "line \<noteq> [] \<and> count_list line CHR '':'' \<noteq> 1"
    using that ins_line by blast
  have c3: "parseKeywordsWithScores keywordsString d =
            fold (parseLine d) (map ?n (filter ?ne (before @ after))) []"
    if h: "split_on (CHR 0x0A) keywordsString = before @ raw # after
       \<and> toLowerCase (trim raw) = a @ CHR '':'' # b
       \<and> CHR '':'' \<notin> set a \<and> CHR '':'' \<notin> set b \<and> parseInt (trim b) = None"
  proof -
    from h norm_nonempty[of raw] have ne: "raw \<noteq> []" by auto
    from h have "parseLine d (?n raw) m' = m'" for m'
      using drop_line by simp
    with parse_lines[of keywordsString before raw after d] h ne show ?thesis by simp
  qed
  have c4: "parseKeywordsWithScores keywordsString d =
            fold (parseLine d) (map ?n (filter ?ne after))
              (AList.update (?n raw) d (fold (parseLine d) (map ?n (filter ?ne before)) []))
          \<and> ?n raw \<in> fst ` set (parseKeywordsWithScores keywordsString d)
          \<and> (after = [] \<longrightarrow> map_of (parseKeywordsWithScores keywordsString d) (?n raw) = Some d)"
    if h: "split_on (CHR 0x0A) keywordsString = before @ raw # after
       \<and> toLowerCase (trim raw) \<noteq> [] \<and> count_list (toLowerCase (trim raw)) CHR '':'' \<noteq> 1"
  proof -
    from h norm_nonempty[of raw] have ne: "raw \<noteq> []" by auto
    from h have "parseLine d (?n raw) m' = AList.update (?n raw) d m'" for m'
      using ins_line by simp
    with parse_lines[of keywordsString before raw after d] h ne
    have eq: "parseKeywordsWithScores keywordsString d =
            fold (parseLine d) (map ?n (filter ?ne after))
              (AList.update (?n raw) d (fold (parseLine d) (map ?n (filter ?ne before)) []))"
      by simp
    have "?n raw \<in> fst ` set (AList.update (?n raw) d (fold (parseLine d) (map ?n (filter ?ne before)) []))"
      by (simp add: dom_update)
    then have k: "?n raw \<in> fst ` set (parseKeywordsWithScores keywordsString d)"
      unfolding eq using keys_mono_fold_parseLine by blast
    have l: "map_of (parseKeywordsWithScores keywordsString d) (?n raw) = Some d" if "after = []"
      unfolding eq using that by (simp add: update_conv')
    from eq k l show ?thesis by blast
  qed
  have c5: "parseKeywordsWithScores raw d = [(?n raw, d)]"
    if h: "CHR 0x0A \<notin> set raw \<and> toLowerCase (trim raw) \<noteq> []
       \<and> count_list (toLowerCase (trim raw)) CHR '':'' \<noteq> 1"
  proof -
    from h norm_nonempty[of raw] have ne: "raw \<noteq> []" by auto
    from h have sp: "split_on (CHR 0x0A) raw = [raw]"
      by (simp add: split_on_def split_char_nosep)
    from h have "parseLine d (?n raw) [] = AList.update (?n raw) d []"
      using ins_line by simp
    with sp ne show ?thesis by (simp add: parseKeywordsWithScores_def)
  qed
  have c6: "parseKeywordsWithScores raw d = []"
    if h: "CHR 0x0A \<notin> set raw \<and> toLowerCase (trim raw) = a @ CHR '':'' # b
       \<and> CHR '':'' \<notin> set a \<and> CHR '':'' \<notin> set b \<and> parseInt (trim b) = None"
  proof -
    from h norm_nonempty[of raw] have ne: "raw \<noteq> []" by auto
    from h have sp: "split_on (CHR 0x0A) raw = [raw]"
      by (simp add: split_on_def split_char_nosep)
    from h have "parseLine d (?n raw) [] = []"
      using drop_line by simp
    with sp ne show ?thesis by (simp add: parseKeywordsWithScores_def)
  qed
  have c7: "parseKeywordsWithScores ''deal:'' d = []" by code_simp
  have c8: "parseKeywordsWithScores ''deal: high'' d = []" by code_simp
  show ?thesis
  proof (intro conjI)
    show "CHR '':'' \<notin> set a \<and> CHR '':'' \<notin> set b \<and> parseInt (trim b) = None
      \<longrightarrow> parseLine d (a @ CHR '':'' # b) m = m"
      using c1 by blast
    show "line \<noteq> [] \<and> count_list line CHR '':'' \<noteq> 1
      \<longrightarrow> parseLine d line m = AList.update line d m"
      using c2 by blast
  qed (use c3 c4 c5 c6 c7 c8 in blast)+
qed

theorem C10_line_dropped_or_default_witness:
  "parseKeywordsWithScores ''sale: 2\<newline>deal: high\<newline>a:b:c'' 1 = [(''sale'', 2), (''a:b:c'', 1)]
   \<and> map_of (parseKeywordsWithScores ''sale: 2\<newline>Best Of'' 1) ''best of'' = Some 1
   \<and> parseKeywordsWithScores '' Deal '' 1 = [(''deal'', 1)]
   \<and> parseKeywordsWithScores ''deal: high'' 1 = []
   \<and> parseLine 1 ''deal: high'' [(''sale'', 2)] = [(''sale'', 2)]
   \<and> parseLine 1 ''a:b:c'' [(''sale'', 2)] = [(''sale'', 2), (''a:b:c'', 1)]"
proof -
  have s1: "split_on (CHR 0x0A) ''sale: 2\<newline>deal: high\<newline>a:b:c''
            = [''sale: 2''] @ ''deal: high'' # [''a:b:c'']"
    by code_simp
  have n1: "toLowerCase (trim ''deal: high'') = ''deal'' @ CHR '':'' # '' high''"
    by code_simp
  have h1: "CHR '':'' \<notin> set ''deal'' \<and> CHR '':'' \<notin> set '' high''
            \<and> parseInt (trim '' high'') = None"
    by code_simp
  have e1: "fold (parseLine 1)
              (map (\<lambda>line. toLowerCase (trim line))
                 (filter (\<lambda>line. line \<noteq> []) ([''sale: 2''] @ [''a:b:c'']))) []
            = [(''sale'', 2), (''a:b:c'', 1)]"
    by code_simp
  have s2: "split_on (CHR 0x0A) ''sale: 2\<newline>Best Of'' = [''sale: 2''] @ ''Best Of'' # []"
    by code_simp
  have n2: "toLowerCase (trim ''Best Of'') = ''best of''"
    "''best of'' \<noteq> [] \<and> count_list ''best of'' CHR '':'' \<noteq> 1"
    by code_simp+
  have n3: "CHR 0x0A \<notin> set '' Deal ''" "toLowerCase (trim '' Deal '') = ''deal''"
    "''deal'' \<noteq> [] \<and> count_list ''deal'' CHR '':'' \<noteq> 1"
    by code_simp+
  have n4: "CHR 0x0A \<notin> set ''deal: high''"
    by code_simp
  have h5: "''a:b:c'' \<noteq> [] \<and> count_list ''a:b:c'' CHR '':'' \<noteq> 1"
    by code_simp
  note t1 = C10_line_dropped_or_default[where keywordsString = "''sale: 2\<newline>deal: high\<newline>a:b:c''"
      and before = "[''sale: 2'']" and raw = "''deal: high''" and after = "[''a:b:c'']"
      and a = "''deal''" and b = "'' high''" and d = 1 and m = "[(''sale'', 2)]"
      and line = "''a:b:c''"]
  note t2 = C10_line_dropped_or_default[where keywordsString = "''sale: 2\<newline>Best Of''"
      and before = "[''sale: 2'']" and raw = "''Best Of''" and after = "[]" and d = 1
      and a = "''deal''" and b = "'' high''" and m = "[]" and line = "''a:b:c''"]
  note t3 = C10_line_dropped_or_default[where raw = "'' Deal ''" and d = 1 and keywordsString = "'' Deal ''"
      and before = "[]" and after = "[]"
      and a = "''deal''" and b = "'' high''" and m = "[]" and line = "''a:b:c''"]
  note t4 = C10_line_dropped_or_default[where raw = "''deal: high''" and a = "''deal''" and b = "'' high''" and d = 1
      and keywordsString = "''deal: high''" and before = "[]" and after = "[]"
      and m = "[]" and line = "''a:b:c''"]
  have r1: "parseKeywordsWithScores ''sale: 2\<newline>deal: high\<newline>a:b:c'' 1 = [(''sale'', 2), (''a:b:c'', 1)]"
    using t1 s1 n1 h1 e1 by simp
  have r2: "map_of (parseKeywordsWithScores ''sale: 2\<newline>Best Of'' 1) ''best of'' = Some 1"
    using t2 s2 n2 by (simp add: update_conv')
  have r3: "parseKeywordsWithScores '' Deal '' 1 = [(''deal'', 1)]"
    using t3 n3 by simp
  have r4: "parseKeywordsWithScores ''deal: high'' 1 = []"
    using t4 n4 n1 h1 by simp
  have r5: "parseLine 1 ''deal: high'' [(''sale'', 2)] = [(''sale'', 2)]"
    using t1 h1 by simp
  have r6: "parseLine 1 ''a:b:c'' [(''sale'', 2)] = [(''sale'', 2), (''a:b:c'', 1)]"
    using t1 h5 by simp
  from r1 r2 r3 r4 r5 r6 show ?thesis by blast
qed

section \<open>Adaptive bias store\<close>

lemma fold_bias:
  "distinct ws \<Longrightarrow>
   map_of (fold (\<lambda>word m. AList.update word
                   ((case map_of m word of Some v \<Rightarrow> v | None \<Rightarrow> 0) - 1) m) ws m0) w
   = (if w \<in> set ws then Some ((case map_of m0 w of Some v \<Rightarrow> v | None \<Rightarrow> (0::int)) - 1)
      else map_of m0 w)"
proof (induction ws arbitrary: m0)
  case Nil
  then show ?case by simp
next
  case (Cons x xs)
  then show ?case by (auto simp: update_conv')
qed

lemma keywords_new_controller_leaked:
  "extractSignificantKeywords ''New Controller Leaked'' = [''new'', ''controller'', ''leaked'']"
  by code_simp

text \<open>
  Claim C4, as stated, fails: \<^verbatim>\<open>new\<close> is not in \<open>STOP_WORDS\<close>, so rejecting
  \<^verbatim>\<open>New Controller Leaked\<close> from an empty bias map gives three entries, not two.
\<close>

theorem C4_bias_map_counterexample:
  "learnedBiases (handleRemoveArticleFromQueue exPlatform ''a''
      (exState [] [exArticle ''a'' ''New Controller Leaked'' ''2024-01-01T00:00:00.000Z'' []]))
     = [(''new'', - 1), (''controller'', - 1), (''leaked'', - 1)]
   \<and> map_of (learnedBiases (handleRemoveArticleFromQueue exPlatform ''a''
      (exState [] [exArticle ''a'' ''New Controller Leaked'' ''2024-01-01T00:00:00.000Z'' []])))
     \<noteq> map_of [(''controller'', - 1), (''leaked'', - 1)]"
proof -
  have e: "learnedBiases (handleRemoveArticleFromQueue exPlatform ''a''
      (exState [] [exArticle ''a'' ''New Controller Leaked'' ''2024-01-01T00:00:00.000Z'' []]))
     = [(''new'', - 1), (''controller'', - 1), (''leaked'', - 1)]"
    by (simp add: handleRemoveArticleFromQueue_def exState_def exArticle_def exSettings_def
          keywords_new_controller_leaked)
  have "map_of [(''new'', - 1 :: int), (''controller'', - 1), (''leaked'', - 1)] ''new''
        \<noteq> map_of [(''controller'', - 1), (''leaked'', - 1)] ''new''"
    by simp
  then have "map_of [(''new'', - 1 :: int), (''controller'', - 1), (''leaked'', - 1)]
        \<noteq> map_of [(''controller'', - 1), (''leaked'', - 1)]"
    by metis
  with e show ?thesis by simp
qed

text \<open>
  Claim C4, amended. When adaptive learning is enabled and the user removes a queued
  article, every significant word of its title has its bias entry decremented by 1 (an
  absent entry counts as 0, so a first rejection gives \<open>-1\<close>) and every other entry is
  unchanged; for the title \<^verbatim>\<open>New Controller Leaked\<close> and an empty bias map the result is
  \<open>{new: -1, controller: -1, leaked: -1}\<close>.
\<close>

theorem C4_bias_map_amended:
  assumes "useAdaptiveLearning (automationSettings s)"
    and "find (\<lambda>a. id_a a = articleId) (pendingArticles s) = Some a"
  shows "map_of (learnedBiases (handleRemoveArticleFromQueue P articleId s)) w =
           (if w \<in> set (extractSignificantKeywords (title a))
            then Some ((case map_of (learnedBiases s) w of Some v \<Rightarrow> v | None \<Rightarrow> 0) - 1)
            else map_of (learnedBiases s) w)
         \<and> (title a = ''New Controller Leaked'' \<and> learnedBiases s = [] \<longrightarrow>
              learnedBiases (handleRemoveArticleFromQueue P articleId s)
                = [(''new'', - 1), (''controller'', - 1), (''leaked'', - 1)])"
proof -
  have d: "distinct (extractSignificantKeywords (title a))"
    by (simp add: extractSignificantKeywords_def normalizeAndGetWords_def distinct_new_Set)
  have g: "map_of (learnedBiases (handleRemoveArticleFromQueue P articleId s)) w =
           (if w \<in> set (extractSignificantKeywords (title a))
            then Some ((case map_of (learnedBiases s) w of Some v \<Rightarrow> v | None \<Rightarrow> 0) - 1)
            else map_of (learnedBiases s) w)"
    using assms fold_bias[OF d, of "learnedBiases s" w]
    by (simp add: handleRemoveArticleFromQueue_def Let_def)
  have c: "title a = ''New Controller Leaked'' \<and> learnedBiases s = [] \<longrightarrow>
           learnedBiases (handleRemoveArticleFromQueue P articleId s)
             = [(''new'', - 1), (''controller'', - 1), (''leaked'', - 1)]"
    using assms
    by (simp add: handleRemoveArticleFromQueue_def Let_def keywords_new_controller_leaked)
  from g c show ?thesis by simp
qed

theorem C4_bias_map_amended_witness:
  "map_of (learnedBiases (handleRemoveArticleFromQueue exPlatform ''a''
      (exState [] [exArticle ''a'' ''New Controller Leaked'' ''2024-01-01T00:00:00.000Z'' []])))
      ''leaked'' = Some (- 1)
   \<and> learnedBiases (handleRemoveArticleFromQueue exPlatform ''a''
      (exState [] [exArticle ''a'' ''New Controller Leaked'' ''2024-01-01T00:00:00.000Z'' []]))
     = [(''new'', - 1), (''controller'', - 1), (''leaked'', - 1)]"
proof -
  let ?a = "exArticle ''a'' ''New Controller Leaked'' ''2024-01-01T00:00:00.000Z'' []"
  let ?s = "exState [] [?a]"
  have h1: "useAdaptiveLearning (automationSettings ?s)"
    by (simp add: exState_def exSettings_def)
  have h2: "find (\<lambda>a. id_a a = ''a'') (pendingArticles ?s) = Some ?a"
    by (simp add: exState_def exArticle_def)
  have h3: "title ?a = ''New Controller Leaked'' \<and> learnedBiases ?s = []"
    by (simp add: exState_def exArticle_def)
  have h4: "''leaked'' \<in> set (extractSignificantKeywords (title ?a))"
    by (simp add: exArticle_def keywords_new_controller_leaked)
  show ?thesis
    using C4_bias_map_amended[OF h1 h2, of exPlatform "''leaked''"] h3 h4
    by (simp add: exState_def)
qed

section \<open>Relevance scorer\<close>

lemma keywordStep_pair:
  "keywordStep tlow dlow (k, v) (b, t) =
     (if includes_str tlow k \<or> includes_str dlow k
      then (b + v, if includes_str tlow k \<and> 0 < v then t + \<lceil>(of_int v :: rat) * (1 / 2)\<rceil> else t)
      else (b, t))"
  by (simp add: keywordStep_def Let_def)

lemma prefix_includes_str: "prefix k s \<Longrightarrow> includes_str s k"
  by (cases s) auto

lemma fold_keywordStep:
  "fold (keywordStep tlow dlow) m (b, t) =
     (b + sum_list (map snd (filter (\<lambda>(k, v). includes_str tlow k \<or> includes_str dlow k) m)),
      t + sum_list (map (\<lambda>(k, v). \<lceil>(of_int v :: rat) * (1 / 2)\<rceil>)
                     (filter (\<lambda>(k, v). includes_str tlow k \<and> 0 < v) m)))"
proof (induction m arbitrary: b t)
  case Nil
  then show ?case by simp
next
  case (Cons e m)
  obtain k v where e: "e = (k, v)" by (cases e)
  show ?case
    by (simp add: e Cons.IH keywordStep_pair)
qed

lemma base_score:
  "base (calculateArticleScore P a m sa lb) =
     sum_list (map snd (filter (\<lambda>(k, v). includes_str (toLowerCase (title a)) k
                                  \<or> includes_str (toLowerCase (description a)) k) m))"
  by (simp add: calculateArticleScore_def Let_def fold_keywordStep)

lemma titleBoost_score:
  "titleBoost (calculateArticleScore P a m sa lb) =
     sum_list (map (\<lambda>(k, v). \<lceil>(of_int v :: rat) * (1 / 2)\<rceil>)
       (filter (\<lambda>(k, v). includes_str (toLowerCase (title a)) k \<and> 0 < v) m))"
  by (simp add: calculateArticleScore_def Let_def fold_keywordStep)

lemma recency_score:
  "recency (calculateArticleScore P a m sa lb) = recencyBoost P (pubDate a)"
  by (simp add: calculateArticleScore_def Let_def split_beta)

lemma includes_str_iff: "includes_str s k \<longleftrightarrow> (\<exists>p q. s = p @ k @ q)"
proof (induction s)
  case Nil
  then show ?case by auto
next
  case (Cons c cs)
  show ?case
  proof
    assume "includes_str (c # cs) k"
    then consider "prefix k (c # cs)" | "includes_str cs k" by auto
    then show "\<exists>p q. c # cs = p @ k @ q"
    proof cases
      case 1
      then obtain q where "c # cs = k @ q" by (auto simp: prefix_def)
      then have "c # cs = [] @ k @ q" by simp
      then show ?thesis by blast
    next
      case 2
      with Cons.IH obtain p q where "cs = p @ k @ q" by auto
      then have "c # cs = (c # p) @ k @ q" by simp
      then show ?thesis by blast
    qed
  next
    assume "\<exists>p q. c # cs = p @ k @ q"
    then obtain p q where pq: "c # cs = p @ k @ q" by auto
    show "includes_str (c # cs) k"
    proof (cases p)
      case Nil
      with pq have "prefix k (c # cs)" by (simp add: prefix_def)
      then show ?thesis by (rule prefix_includes_str)
    next
      case (Cons x p')
      with pq have "cs = p' @ k @ q" by simp
      with Cons.IH show ?thesis by auto
    qed
  qed
qed

lemma lower_release: "toLowerCase ''Release Date'' = ''release date''"
  by code_simp

lemma toLowerChar_idem: "toLowerChar (toLowerChar c) = toLowerChar c"
  by (auto simp: toLowerChar_def Let_def)

lemma toLowerCase_idem: "toLowerCase (toLowerCase s) = toLowerCase s"
  by (simp add: toLowerCase_def toLowerChar_idem)

lemma lower_iff: "toLowerCase s = s \<longleftrightarrow> (\<forall>c\<in>set s. toLowerChar c = c)"
  unfolding toLowerCase_def by (induction s) auto

lemma set_split_char: "p \<in> set (split_char sep cur s) \<Longrightarrow> set p \<subseteq> set cur \<union> set s"
proof (induction s arbitrary: cur)
  case Nil
  then show ?case by simp
next
  case (Cons c s)
  show ?case
  proof (cases "c = sep")
    case True
    with Cons.prems have "p = rev cur \<or> p \<in> set (split_char sep [] s)" by simp
    then show ?thesis using Cons.IH[of "[]"] by auto
  next
    case False
    with Cons.prems have "p \<in> set (split_char sep (c # cur) s)" by simp
    from Cons.IH[OF this] show ?thesis by auto
  qed
qed

lemma set_trim: "set (trim s) \<subseteq> set s"
  unfolding trim_def  by (metis dual_order.trans set_dropWhileD set_rev subsetI)


lemma lowercase_subset: "toLowerCase s = s \<Longrightarrow> set k \<subseteq> set s \<Longrightarrow> toLowerCase k = k"
  by (auto simp: lower_iff)

lemma keys_parseLine_subset:
  "fst ` set (parseLine d line m) \<subseteq> {line, trim (split_on CHR '':'' line ! 0)} \<union> fst ` set m"
  by (simp add: parseLine_def Let_def dom_update subset_insertI2 split: option.splits)

lemma keys_parseLine:
  assumes "toLowerCase line = line" and "\<forall>k\<in>fst ` set m. toLowerCase k = k"
  shows "\<forall>k\<in>fst ` set (parseLine d line m). toLowerCase k = k"
proof -
  have "0 < length (split_on CHR '':'' line)"
    by (simp add: split_on_def length_split_char)
  then have "split_on CHR '':'' line ! 0 \<in> set (split_on CHR '':'' line)"
    by (rule nth_mem)
  then have "set (split_on CHR '':'' line ! 0) \<subseteq> set line"
    using set_split_char[of _ "CHR '':''" "[]" line] by (simp add: split_on_def)
  then have "set (trim (split_on CHR '':'' line ! 0)) \<subseteq> set line"
    using set_trim by blast
  with assms(1) have part: "toLowerCase (trim (split_on CHR '':'' line ! 0)) = trim (split_on CHR '':'' line ! 0)"
    by (rule lowercase_subset)
  show ?thesis
  proof
    fix k assume "k \<in> fst ` set (parseLine d line m)"
    with keys_parseLine_subset[of d line m]
    have "k = line \<or> k = trim (split_on CHR '':'' line ! 0) \<or> k \<in> fst ` set m" by blast
    with assms part show "toLowerCase k = k" by auto
  qed
qed

lemma keys_fold_parseLine:
  "\<forall>l\<in>set ls. toLowerCase l = l \<Longrightarrow> \<forall>k\<in>fst ` set m. toLowerCase k = k \<Longrightarrow>
   \<forall>k\<in>fst ` set (fold (parseLine d) ls m). toLowerCase k = k"
proof (induction ls arbitrary: m)
  case Nil
  then show ?case by simp
next
  case (Cons l ls)
  have "\<forall>k\<in>fst ` set (parseLine d l m). toLowerCase k = k"
    using Cons.prems by (intro keys_parseLine) auto
  with Cons show ?case by simp
qed

lemma keys_parseKeywordsWithScores:
  "\<forall>k\<in>fst ` set (parseKeywordsWithScores s d). toLowerCase k = k"
  unfolding parseKeywordsWithScores_def
  by (rule keys_fold_parseLine) (auto simp: toLowerCase_idem)

lemma keys_fold_update:
  "fst ` set (fold (\<lambda>(k, sc) m. AList.update k (f sc) m) es m0) = fst ` set es \<union> fst ` set m0"
  by (induction es arbitrary: m0) (auto simp: dom_update split_beta)

lemma keys_combinedScoredKeywords:
  "\<forall>k\<in>fst ` set (combinedScoredKeywords settings). toLowerCase k = k"
  using keys_parseKeywordsWithScores
  by (auto simp: combinedScoredKeywords_def Let_def keys_fold_update)

lemma distinct_parseLine: "distinct (map fst m) \<Longrightarrow> distinct (map fst (parseLine d line m))"
  by (auto simp: parseLine_def Let_def distinct_update split: option.splits)

lemma distinct_fold_parseLine:
  "distinct (map fst m) \<Longrightarrow> distinct (map fst (fold (parseLine d) ls m))"
  by (induction ls arbitrary: m) (auto simp: distinct_parseLine)

lemma distinct_parseKeywordsWithScores: "distinct (map fst (parseKeywordsWithScores s d))"
  by (simp add: parseKeywordsWithScores_def distinct_fold_parseLine)

lemma map_of_fold_update:
  "distinct (map fst es) \<Longrightarrow>
   map_of (fold (\<lambda>(k, sc) m. AList.update k (f sc) m) es m0) k =
     (case map_of es k of Some sc \<Rightarrow> Some (f sc) | None \<Rightarrow> map_of m0 k)"
proof (induction es arbitrary: m0)
  case Nil
  then show ?case by simp
next
  case (Cons e es)
  obtain k' sc' where e: "e = (k', sc')" by (cases e)
  from Cons.prems e have nin: "map_of es k' = None" 
    by (simp add: map_of_eq_None_iff)
  from Cons.prems have d: "distinct (map fst es)" by simp
  show ?case
    using nin by (simp add: e Cons.IH[OF d] update_conv' split: option.splits)
qed

lemma map_of_combined:
  "map_of (combinedScoredKeywords settings) k =
     (case map_of (parseKeywordsWithScores (excludeKeywords settings) 1) k of
        Some sc \<Rightarrow> Some (- \<bar>sc\<bar>)
      | None \<Rightarrow> map_option abs (map_of (parseKeywordsWithScores (includeKeywords settings) 1) k))"
  by (simp add: combinedScoredKeywords_def Let_def map_of_fold_update
        distinct_parseKeywordsWithScores split: option.splits)

lemma sourceAuthority_score:
  "sourceAuthority (calculateArticleScore P a m sa lb) =
     (case sa of None \<Rightarrow> 0
      | Some am \<Rightarrow> (let domain = getDomainFromUrl P (link a)
                    in if domain \<noteq> [] then (case map_of am domain of Some v \<Rightarrow> v | None \<Rightarrow> 0) else 0))"
  by (simp add: calculateArticleScore_def Let_def split_beta)

lemma learnedBias_score:
  "learnedBias (calculateArticleScore P a m sa lb) =
     (case lb of None \<Rightarrow> 0
      | Some bm \<Rightarrow> fold (\<lambda>word acc. case map_of bm word of Some v \<Rightarrow> acc + v | None \<Rightarrow> acc)
                     (normalizeAndGetWords (title a)) 0)"
  by (simp add: calculateArticleScore_def Let_def split_beta)

lemma total_score:
  "total_sc (calculateArticleScore P a m sa lb) =
     base (calculateArticleScore P a m sa lb) + titleBoost (calculateArticleScore P a m sa lb)
     + recency (calculateArticleScore P a m sa lb) + sourceAuthority (calculateArticleScore P a m sa lb)
     + learnedBias (calculateArticleScore P a m sa lb)"
  by (simp add: calculateArticleScore_def Let_def split_beta)

lemma parse_empty: "parseKeywordsWithScores [] d = []"
  by code_simp

lemma parse_deal_10: "parseKeywordsWithScores ''deal: 10'' 1 = [(''deal'', 10)]"
  by code_simp

text \<open>
  Claim C5. For every article and every keyword-weight map (its keys are lower-case, as
  \<open>parseKeywordsWithScores\<close> makes them: \<open>keys_combinedScoredKeywords\<close>), the title bonus is
  the sum of \<open>ceil(weight * 0.5)\<close> over the keywords of positive weight whose text occurs in
  the title without regard to case; keywords of weight zero or below add nothing to it.
  With the single keyword \<^verbatim>\<open>release date\<close> of weight 10 and a title containing
  \<^verbatim>\<open>Release Date\<close>, the base is 10 and the title bonus is 5.
\<close>

theorem C5_title_bonus:
  assumes "\<forall>k\<in>fst ` set m. toLowerCase k = k"
  shows "titleBoost (calculateArticleScore P a m sa lb) =
           sum_list (map (\<lambda>(k, v). \<lceil>(of_int v :: rat) * (1 / 2)\<rceil>)
             (filter (\<lambda>(k, v). 0 < v \<and> includes_str (toLowerCase (title a)) (toLowerCase k)) m))
         \<and> titleBoost (calculateArticleScore P a m sa lb) =
             titleBoost (calculateArticleScore P a (filter (\<lambda>(k, v). 0 < v) m) sa lb)
         \<and> (title a = pre @ ''Release Date'' @ post \<longrightarrow>
              base (calculateArticleScore P a [(''release date'', 10)] sa lb) = 10
              \<and> titleBoost (calculateArticleScore P a [(''release date'', 10)] sa lb) = 5)"
proof (intro conjI impI)
  have f: "filter (\<lambda>(k, v). includes_str (toLowerCase (title a)) k \<and> 0 < v) m =
           filter (\<lambda>(k, v). 0 < v \<and> includes_str (toLowerCase (title a)) (toLowerCase k)) m"
    using assms by (intro filter_cong) force+
  show "titleBoost (calculateArticleScore P a m sa lb) =
           sum_list (map (\<lambda>(k, v). \<lceil>(of_int v :: rat) * (1 / 2)\<rceil>)
             (filter (\<lambda>(k, v). 0 < v \<and> includes_str (toLowerCase (title a)) (toLowerCase k)) m))"
    by (simp only: titleBoost_score f)
  have g: "filter (\<lambda>(k, v). includes_str (toLowerCase (title a)) k \<and> 0 < v) (filter (\<lambda>(k, v). 0 < v) m)
           = filter (\<lambda>(k, v). includes_str (toLowerCase (title a)) k \<and> 0 < v) m"
    by (induction m) auto
  show "titleBoost (calculateArticleScore P a m sa lb) =
             titleBoost (calculateArticleScore P a (filter (\<lambda>(k, v). 0 < v) m) sa lb)"
    by (simp only: titleBoost_score g)
next
  assume t: "title a = pre @ ''Release Date'' @ post"
  have "toLowerCase (title a) = toLowerCase pre @ ''release date'' @ toLowerCase post"
    using lower_release by (simp add: t toLowerCase_def)
  then have inc: "includes_str (toLowerCase (title a)) ''release date''"
    unfolding includes_str_iff by blast
  show "base (calculateArticleScore P a [(''release date'', 10)] sa lb) = 10"
    using inc by (simp add: base_score)
  show "titleBoost (calculateArticleScore P a [(''release date'', 10)] sa lb) = 5"
    using inc by (simp add: titleBoost_score)
qed

text \<open>
  Claim C6. The combined keyword map holds, for a keyword of the exclusion list, the
  negated absolute value of its exclusion score, whether or not the inclusion list has it
  too; for any other keyword of the inclusion list the absolute value of its score. With no
  inclusion keyword and the exclusion keyword \<^verbatim>\<open>deal: 10\<close>, an article with \<^verbatim>\<open>deal\<close> in its
  description and not in its title has base \<open>-10\<close> and title bonus 0.
\<close>

theorem C6_exclusion_precedence:
  "(map_of (parseKeywordsWithScores (excludeKeywords settings) 1) k = Some sc \<longrightarrow>
      map_of (combinedScoredKeywords settings) k = Some (- \<bar>sc\<bar>))
   \<and> (map_of (parseKeywordsWithScores (excludeKeywords settings) 1) k = None \<longrightarrow>
      map_of (combinedScoredKeywords settings) k =
        map_option abs (map_of (parseKeywordsWithScores (includeKeywords settings) 1) k))
   \<and> (includeKeywords settings = [] \<and> excludeKeywords settings = ''deal: 10''
       \<and> includes_str (toLowerCase (description a)) ''deal''
       \<and> \<not> includes_str (toLowerCase (title a)) ''deal'' \<longrightarrow>
      base (calculateArticleScore P a (combinedScoredKeywords settings) sa lb) = - 10
      \<and> titleBoost (calculateArticleScore P a (combinedScoredKeywords settings) sa lb) = 0)"
proof (intro conjI impI)
  assume "map_of (parseKeywordsWithScores (excludeKeywords settings) 1) k = Some sc"
  then show "map_of (combinedScoredKeywords settings) k = Some (- \<bar>sc\<bar>)"
    by (simp add: map_of_combined)
next
  assume "map_of (parseKeywordsWithScores (excludeKeywords settings) 1) k = None"
  then show "map_of (combinedScoredKeywords settings) k =
        map_option abs (map_of (parseKeywordsWithScores (includeKeywords settings) 1) k)"
    by (simp add: map_of_combined)
next
  assume h: "includeKeywords settings = [] \<and> excludeKeywords settings = ''deal: 10''
       \<and> includes_str (toLowerCase (description a)) ''deal''
       \<and> \<not> includes_str (toLowerCase (title a)) ''deal''"
  then have c: "combinedScoredKeywords settings = [(''deal'', - 10)]"
    by (simp add: combinedScoredKeywords_def parse_empty parse_deal_10)
  show "base (calculateArticleScore P a (combinedScoredKeywords settings) sa lb) = - 10"
    using h by (simp add: c base_score)
  show "titleBoost (calculateArticleScore P a (combinedScoredKeywords settings) sa lb) = 0"
    using h by (simp add: c titleBoost_score)
qed

text \<open>
  Claim C8. For an article whose publication timestamp does not parse as a date the
  scorer returns a breakdown with recency 0; the base, the title bonus, the authority
  adjustment and the learned bias are those of the same article with any other timestamp,
  and the total is their sum. The scorer is a total function: \<^verbatim>\<open>new Date(s)\<close> and
  \<^verbatim>\<open>getTime()\<close> return for every string, so no step of it throws.
\<close>

theorem C8_unparsable_date_recency:
  assumes "Date_getTime P (pubDate a) = None"
  shows "recency (calculateArticleScore P a m sa lb) = 0
     \<and> base (calculateArticleScore P a m sa lb) = base (calculateArticleScore P (a\<lparr>pubDate := d\<rparr>) m sa lb)
     \<and> titleBoost (calculateArticleScore P a m sa lb) = titleBoost (calculateArticleScore P (a\<lparr>pubDate := d\<rparr>) m sa lb)
     \<and> sourceAuthority (calculateArticleScore P a m sa lb) = sourceAuthority (calculateArticleScore P (a\<lparr>pubDate := d\<rparr>) m sa lb)
     \<and> learnedBias (calculateArticleScore P a m sa lb) = learnedBias (calculateArticleScore P (a\<lparr>pubDate := d\<rparr>) m sa lb)
     \<and> total_sc (calculateArticleScore P a m sa lb) =
         base (calculateArticleScore P a m sa lb) + titleBoost (calculateArticleScore P a m sa lb)
         + sourceAuthority (calculateArticleScore P a m sa lb) + learnedBias (calculateArticleScore P a m sa lb)"
proof -
  have r: "recency (calculateArticleScore P a m sa lb) = 0"
    using assms by (simp add: recency_score recencyBoost_def)
  show ?thesis
    using r by (simp add: total_score) (simp add: base_score titleBoost_score sourceAuthority_score learnedBias_score
          split: option.splits)
qed

theorem C5_title_bonus_witness:
  "titleBoost (calculateArticleScore exPlatform
      (exArticle ''a'' ''Game Release Date and Deal'' ''2024-01-02T00:00:00.000Z'' [])
      [(''release date'', 10), (''deal'', - 10), (''game'', 3)] None None) = 7
   \<and> base (calculateArticleScore exPlatform
      (exArticle ''a'' ''Game Release Date and Deal'' ''2024-01-02T00:00:00.000Z'' [])
      [(''release date'', 10)] None None) = 10"
proof -
  let ?a = "exArticle ''a'' ''Game Release Date and Deal'' ''2024-01-02T00:00:00.000Z'' []"
  let ?m = "[(''release date'', 10), (''deal'', - 10), (''game'', 3 :: int)]"
  have h: "\<forall>k\<in>fst ` set ?m. toLowerCase k = k"
    by code_simp
  have t: "title ?a = ''Game '' @ ''Release Date'' @ '' and Deal''"
    by (simp add: exArticle_def)
  have e: "sum_list (map (\<lambda>(k, v). \<lceil>(of_int v :: rat) * (1 / 2)\<rceil>)
             (filter (\<lambda>(k, v). 0 < v \<and> includes_str (toLowerCase (title ?a)) (toLowerCase k)) ?m)) = 7"
    by code_simp
  show ?thesis
    using C5_title_bonus[OF h, of exPlatform ?a None None "''Game ''" "'' and Deal''"] t e
    by simp
qed

theorem C6_exclusion_precedence_witness:
  "map_of (combinedScoredKeywords (exSettings\<lparr>includeKeywords := ''deal: 3''\<rparr>)) ''deal'' = Some (- 10)
   \<and> map_of (combinedScoredKeywords exSettings) ''release date'' = Some 10
   \<and> base (calculateArticleScore exPlatform
        (exArticle ''a'' ''Weekend news'' ''2024-01-02T00:00:00.000Z'' ''A great Deal today'')
        (combinedScoredKeywords (exSettings\<lparr>includeKeywords := []\<rparr>)) None None) = - 10
   \<and> titleBoost (calculateArticleScore exPlatform
        (exArticle ''a'' ''Weekend news'' ''2024-01-02T00:00:00.000Z'' ''A great Deal today'')
        (combinedScoredKeywords (exSettings\<lparr>includeKeywords := []\<rparr>)) None None) = 0"
proof -
  let ?a = "exArticle ''a'' ''Weekend news'' ''2024-01-02T00:00:00.000Z'' ''A great Deal today''"
  have h1: "map_of (parseKeywordsWithScores
              (excludeKeywords (exSettings\<lparr>includeKeywords := ''deal: 3''\<rparr>)) 1) ''deal'' = Some 10"
    by code_simp
  have h2: "map_of (parseKeywordsWithScores (excludeKeywords exSettings) 1) ''release date'' = None"
    by code_simp
  have h2': "map_option abs (map_of (parseKeywordsWithScores (includeKeywords exSettings) 1)
               ''release date'') = Some 10"
    by code_simp
  have h3: "includeKeywords (exSettings\<lparr>includeKeywords := []\<rparr>) = []
       \<and> excludeKeywords (exSettings\<lparr>includeKeywords := []\<rparr>) = ''deal: 10''
       \<and> includes_str (toLowerCase (description ?a)) ''deal''
       \<and> \<not> includes_str (toLowerCase (title ?a)) ''deal''"
    by code_simp
  show ?thesis
    using C6_exclusion_precedence[of "exSettings\<lparr>includeKeywords := ''deal: 3''\<rparr>" "''deal''" 10]
      C6_exclusion_precedence[of exSettings "''release date''" 10]
      C6_exclusion_precedence[of "exSettings\<lparr>includeKeywords := []\<rparr>" "''deal''" 10 ?a exPlatform None None]
      h1 h2 h2' h3
    by simp
qed

theorem C8_unparsable_date_recency_witness:
  "recency (calculateArticleScore exPlatform
      (exArticle ''a'' ''Game Release Date'' ''not a date'' [])
      (combinedScoredKeywords exSettings) None None) = 0
   \<and> total_sc (calculateArticleScore exPlatform
      (exArticle ''a'' ''Game Release Date'' ''not a date'' [])
      (combinedScoredKeywords exSettings) None None) = 15"
proof -
  let ?a = "exArticle ''a'' ''Game Release Date'' ''not a date'' []"
  have h: "Date_getTime exPlatform (pubDate ?a) = None"
    by (simp add: exPlatform_def exArticle_def)
  have e: "base (calculateArticleScore exPlatform ?a (combinedScoredKeywords exSettings) None None)
           + titleBoost (calculateArticleScore exPlatform ?a (combinedScoredKeywords exSettings) None None)
           + sourceAuthority (calculateArticleScore exPlatform ?a (combinedScoredKeywords exSettings) None None)
           + learnedBias (calculateArticleScore exPlatform ?a (combinedScoredKeywords exSettings) None None) = 15"
    by code_simp
  show ?thesis
    using C8_unparsable_date_recency[OF h, of "combinedScoredKeywords exSettings" None None "''2024-01-02T00:00:00.000Z''"] e
    by simp
qed

section \<open>Fetch cycle\<close>

lemma mset_insertSorted: "mset (insertSorted c x ys) = add_mset x (mset ys)"
  by (induction ys) auto

lemma mset_Array_sort: "mset (Array_sort c xs) = mset xs"
  by (induction xs) (auto simp: Array_sort_def mset_insertSorted)

lemma set_Array_sort: "set (Array_sort c xs) = set xs"
  using mset_Array_sort[of c xs] by (metis set_mset_mset)

lemma length_Array_sort: "length (Array_sort c xs) = length xs"
  using mset_Array_sort[of c xs] by (metis size_mset)

lemma distinct_map_Array_sort:
  "distinct (map f (Array_sort c xs)) = distinct (map f xs)"
proof -
  have "mset (map f (Array_sort c xs)) = mset (map f xs)"
    by (simp add: mset_Array_sort)
  then show ?thesis by (rule mset_eq_imp_distinct_iff)
qed

lemma insertSorted_insort_key:
  assumes "\<forall>a\<in>set (x # ys). Date_getTime P (pubDate a) \<noteq> None"
  shows "insertSorted (\<lambda>a b. timeDiff P (pubDate b) (pubDate a)) x ys
         = insort_key (\<lambda>a. - the (Date_getTime P (pubDate a))) x ys"
  using assms
  by (induction ys) (auto simp: SortCompare_def timeDiff_def)

lemma Array_sort_sort_key:
  assumes "\<forall>a\<in>set xs. Date_getTime P (pubDate a) \<noteq> None"
  shows "Array_sort (\<lambda>a b. timeDiff P (pubDate b) (pubDate a)) xs
         = sort_key (\<lambda>a. - the (Date_getTime P (pubDate a))) xs"
  using assms
proof (induction xs)
  case Nil
  then show ?case by (simp add: Array_sort_def)
next
  case (Cons x xs)
  then have ih: "Array_sort (\<lambda>a b. timeDiff P (pubDate b) (pubDate a)) xs
         = sort_key (\<lambda>a. - the (Date_getTime P (pubDate a))) xs" by simp
  have "\<forall>a\<in>set (x # sort_key (\<lambda>a. - the (Date_getTime P (pubDate a))) xs).
          Date_getTime P (pubDate a) \<noteq> None"
    using Cons.prems by simp
  from insertSorted_insort_key[OF this] ih show ?case
    by (simp add: Array_sort_def sort_key_def)
qed

lemma sortedByPubDateDesc_sort_key:
  assumes "\<forall>a\<in>set xs. Date_getTime P (pubDate a) \<noteq> None"
  shows "sortedByPubDateDesc P (sort_key (\<lambda>a. - the (Date_getTime P (pubDate a))) xs)"
proof -
  let ?f = "\<lambda>a. - the (Date_getTime P (pubDate a))"
  have "sorted (map ?f (sort_key ?f xs))" by (rule sorted_sort_key)
  then have "sorted_wrt (\<lambda>a b. ?f a \<le> ?f b) (sort_key ?f xs)"
    by (simp add: sorted_map)
  then show ?thesis
    unfolding sortedByPubDateDesc_def
    by (rule sorted_wrt_mono_rel[rotated]) (auto split: option.splits)
qed

lemma sortedByPubDateDesc_take:
  "sortedByPubDateDesc P xs \<Longrightarrow> sortedByPubDateDesc P (take n xs)"
  unfolding sortedByPubDateDesc_def by (rule sorted_wrt_take)

lemma findIndex_Some:
  "findIndex p xs = Some i \<Longrightarrow> i < length xs \<and> p (xs ! i) \<and> find p xs = Some (xs ! i)"
proof (induction xs arbitrary: i)
  case Nil
  then show ?case by simp
next
  case (Cons x xs)
  show ?case
  proof (cases "p x")
    case True
    with Cons.prems show ?thesis by simp
  next
    case False
    with Cons.prems obtain j where j: "findIndex p xs = Some j" "i = Suc j" by auto
    from Cons.IH[OF j(1)] j(2) False show ?thesis by simp
  qed
qed

lemma findIndex_append:
  "\<exists>x\<in>set xs. p x \<Longrightarrow> findIndex p (xs @ ys) = findIndex p xs"
proof (induction xs)
  case Nil
  then show ?case by simp
next
  case (Cons x xs)
  show ?case
  proof (cases "p x")
    case True
    then show ?thesis by simp
  next
    case False
    with Cons.prems have "\<exists>x\<in>set xs. p x" by auto
    from Cons.IH[OF this] False show ?thesis by simp
  qed
qed

lemma enumerate_nth: "enumerate 0 xs = map (\<lambda>i. (i, xs ! i)) [0..<length xs]"
proof (rule nth_equalityI)
  show "length (enumerate 0 xs) = length (map (\<lambda>i. (i, xs ! i)) [0..<length xs])"
    by simp
next
  fix i assume "i < length (enumerate 0 xs)"
  then show "enumerate 0 xs ! i = map (\<lambda>i. (i, xs ! i)) [0..<length xs] ! i"
    by (simp add: nth_enumerate_eq)
qed

lemma uniqueArticles_nth:
  "uniqueArticles P xs =
     map (\<lambda>i. xs ! i)
       (filter (\<lambda>i. Some i = findIndex (\<lambda>a. normalizeUrl P (link a) = normalizeUrl P (link (xs ! i))) xs)
          [0..<length xs])"
  by (simp add: uniqueArticles_def enumerate_nth filter_map comp_def)

lemma set_uniqueArticles: "set (uniqueArticles P xs) \<subseteq> set xs"
  by (auto simp: uniqueArticles_nth)

lemma distinct_uniqueArticles:
  "distinct (map (\<lambda>a. normalizeUrl P (link a)) (uniqueArticles P xs))"
proof -
  let ?R = "\<lambda>i. Some i = findIndex (\<lambda>a. normalizeUrl P (link a) = normalizeUrl P (link (xs ! i))) xs"
  have "inj_on (\<lambda>i. normalizeUrl P (link (xs ! i))) (set (filter ?R [0..<length xs]))"
    by (rule inj_onI) (simp, metis option.inject)
  then have "distinct (map (\<lambda>i. normalizeUrl P (link (xs ! i))) (filter ?R [0..<length xs]))"
    by (simp add: distinct_map)
  then show ?thesis by (simp add: uniqueArticles_nth comp_def)
qed

lemma uniqueArticles_first:
  assumes "a \<in> set (uniqueArticles P (q @ r))"
    and "normalizeUrl P (link a) \<in> (\<lambda>b. normalizeUrl P (link b)) ` set q"
  shows "find (\<lambda>b. normalizeUrl P (link b) = normalizeUrl P (link a)) q = Some a"
proof -
  let ?p = "\<lambda>b. normalizeUrl P (link b) = normalizeUrl P (link a)"
  from assms(1) obtain i where i: "i < length (q @ r)" "a = (q @ r) ! i"
    "Some i = findIndex (\<lambda>b. normalizeUrl P (link b) = normalizeUrl P (link ((q @ r) ! i))) (q @ r)"
    by (auto simp: uniqueArticles_nth)
  from assms(2) have ex: "\<exists>x\<in>set q. ?p x" by auto
  from i(2,3) have "findIndex ?p (q @ r) = Some i" by simp
  with findIndex_append[OF ex, of r] have fi: "findIndex ?p q = Some i" by simp
  from findIndex_Some[OF fi] have "i < length q" "find ?p q = Some (q ! i)" by auto
  with i(2) show ?thesis by (simp add: nth_append)
qed

lemma set_urlsToExclude:
  "set (urlsToExclude P s) =
     (\<lambda>item. normalizeUrl P (url item)) ` set (postingHistory s)
     \<union> (\<lambda>item. normalizeUrl P (link item)) ` set (pendingArticles s)
     \<union> set (removedArticleUrls s)"
proof -
  have "set (fold set_add xs ys) = set xs \<union> set ys" for xs ys :: "string list"
    by (induction xs arbitrary: ys) (auto simp: set_add_def)
  then show ?thesis by (auto simp: urlsToExclude_def set_new_Set)
qed

lemma distinct_mergeFetched:
  assumes "mergeFetched P newArticles s = Some q"
  shows "distinct (map (\<lambda>a. normalizeUrl P (link a)) q)"
proof -
  from assms have q: "q = take MAX_PENDING_ARTICLES
      (Array_sort (\<lambda>a b. timeDiff P (pubDate b) (pubDate a))
         (uniqueArticles P (pendingArticles s @ uniqueNewArticles P newArticles s)))"
    by (auto simp: mergeFetched_def Let_def split: if_splits)
  have "distinct (map (\<lambda>a. normalizeUrl P (link a))
      (Array_sort (\<lambda>a b. timeDiff P (pubDate b) (pubDate a))
         (uniqueArticles P (pendingArticles s @ uniqueNewArticles P newArticles s))))"
    by (simp add: distinct_map_Array_sort distinct_uniqueArticles)
  then show ?thesis by (simp add: q take_map[symmetric])
qed

lemma queue_distinct_runFetchCycle:
  assumes "distinct (map (\<lambda>a. normalizeUrl P (link a)) (pendingArticles s))"
  shows "distinct (map (\<lambda>a. normalizeUrl P (link a)) (pendingArticles (runFetchCycle P newArticles s)))"
  using assms distinct_mergeFetched[of P newArticles s]
  by (auto simp: runFetchCycle_def split: option.splits)

text \<open>
  Claim C1. For every current queue, list of fetched articles, posting history and
  removed-link set, the queue that a fetch-cycle merge saves has no two entries with the
  same normalized link, has at most 50 entries, and is sorted by publication timestamp in
  descending order. The order is stated for the articles the cycle receives, whose
  publication timestamps all parse as dates: the feed reader writes each one with
  \<^verbatim>\<open>toISOString\<close>. The other two parts hold without that condition.
\<close>

theorem C1_merge_invariants:
  assumes "mergeFetched P newArticles s = Some q"
  shows "pendingArticles (runFetchCycle P newArticles s) = q
     \<and> distinct (map (\<lambda>a. normalizeUrl P (link a)) q)
     \<and> length q \<le> 50
     \<and> ((\<forall>a\<in>set (pendingArticles s @ newArticles). Date_getTime P (pubDate a) \<noteq> None)
          \<longrightarrow> sortedByPubDateDesc P q)"
proof -
  let ?fresh = "uniqueNewArticles P newArticles s"
  let ?u = "uniqueArticles P (pendingArticles s @ ?fresh)"
  let ?c = "\<lambda>a b. timeDiff P (pubDate b) (pubDate a)"
  from assms have ne: "?fresh \<noteq> []" and q: "q = take MAX_PENDING_ARTICLES (Array_sort ?c ?u)"
    by (auto simp: mergeFetched_def Let_def split: if_splits)
  from ne have nn: "newArticles \<noteq> []" by (auto simp: uniqueNewArticles_def)
  have r: "pendingArticles (runFetchCycle P newArticles s) = q"
    using assms nn by (simp add: runFetchCycle_def)
  have d: "distinct (map (\<lambda>a. normalizeUrl P (link a)) q)"
    using assms by (rule distinct_mergeFetched)
  have l: "length q \<le> 50" by (simp add: q MAX_PENDING_ARTICLES_def)
  have srt: "sortedByPubDateDesc P q"
    if all: "\<forall>a\<in>set (pendingArticles s @ newArticles). Date_getTime P (pubDate a) \<noteq> None"
  proof -
    have "set ?u \<subseteq> set (pendingArticles s @ newArticles)"
      using set_uniqueArticles[of P "pendingArticles s @ ?fresh"]
      by (auto simp: uniqueNewArticles_def)
    with all have pu: "\<forall>a\<in>set ?u. Date_getTime P (pubDate a) \<noteq> None" by blast
    show ?thesis
      unfolding q Array_sort_sort_key[OF pu]
      by (intro sortedByPubDateDesc_take sortedByPubDateDesc_sort_key pu)
  qed
  from r d l srt show ?thesis by blast
qed

theorem C1_merge_invariants_witness:
  "pendingArticles (runFetchCycle exPlatform [exSecond, exFirstAgain] (exState [] [exFirst]))
     = [exSecond, exFirst]
   \<and> distinct (map (\<lambda>a. normalizeUrl exPlatform (link a)) [exSecond, exFirst])
   \<and> sortedByPubDateDesc exPlatform [exSecond, exFirst]"
proof -
  have h: "mergeFetched exPlatform [exSecond, exFirstAgain] (exState [] [exFirst])
           = Some [exSecond, exFirst]"
    by code_simp
  have p: "\<forall>a\<in>set (pendingArticles (exState [] [exFirst]) @ [exSecond, exFirstAgain]).
             Date_getTime exPlatform (pubDate a) \<noteq> None"
    by code_simp
  show ?thesis
    using C1_merge_invariants[OF h] p by blast
qed

text \<open>
  Claim C2, as stated, fails: a fetched article whose normalized link is already queued
  is dropped by the exclusion filter, and the merged queue keeps the queued copy with its
  description.
\<close>

theorem C2_fetched_copy_wins_counterexample:
  "mergeFetched exPlatform [exFirstAgain, exSecond] (exState [] [exFirst])
     = Some [exSecond, exFirst]
   \<and> description exFirst = ''queued description''
   \<and> description exFirstAgain = ''fetched description''"
  by code_simp

lemma find_findIndex:
  "find p xs = Some a \<Longrightarrow> \<exists>i. findIndex p xs = Some i \<and> i < length xs \<and> xs ! i = a"
proof (induction xs)
  case Nil
  then show ?case by simp
next
  case (Cons x xs)
  show ?case
  proof (cases "p x")
    case True
    with Cons.prems show ?thesis by simp
  next
    case False
    with Cons.prems have "find p xs = Some a" by simp
    from Cons.IH[OF this] obtain i where "findIndex p xs = Some i" "i < length xs" "xs ! i = a"
      by blast
    with False have "findIndex p (x # xs) = Some (Suc i) \<and> Suc i < length (x # xs)
        \<and> (x # xs) ! Suc i = a" by simp
    then show ?thesis by blast
  qed
qed

lemma uniqueArticles_keeps_first:
  assumes "find (\<lambda>b. normalizeUrl P (link b) = normalizeUrl P (link a)) q = Some a"
  shows "a \<in> set (uniqueArticles P (q @ r))"
proof -
  let ?p = "\<lambda>b. normalizeUrl P (link b) = normalizeUrl P (link a)"
  from find_findIndex[OF assms] obtain i where i: "findIndex ?p q = Some i" "i < length q" "q ! i = a"
    by blast
  from i(2,3) have "\<exists>x\<in>set q. ?p x" by (metis nth_mem)
  from findIndex_append[OF this, of r] i(1) have f: "findIndex ?p (q @ r) = Some i" by simp
  from i(2,3) have n: "(q @ r) ! i = a" "i < length (q @ r)" by (simp_all add: nth_append)
  have "i \<in> set (filter (\<lambda>i. Some i = findIndex (\<lambda>b. normalizeUrl P (link b)
            = normalizeUrl P (link ((q @ r) ! i))) (q @ r)) [0..<length (q @ r)])"
    using f n by simp
  then have "(q @ r) ! i \<in> set (uniqueArticles P (q @ r))"
    unfolding uniqueArticles_nth set_map by (rule imageI)
  with n(1) show ?thesis by simp
qed

lemma in_take_or_full: "a \<in> set xs \<Longrightarrow> a \<in> set (take n xs) \<or> length (take n xs) = n"
  by (cases "length xs \<le> n") auto

lemma sortedByPubDateDesc_evicted:
  assumes "sortedByPubDateDesc P xs" "a \<in> set xs" "a \<notin> set (take n xs)" "b \<in> set (take n xs)"
    and "\<forall>x\<in>set xs. Date_getTime P (pubDate x) \<noteq> None"
  shows "the (Date_getTime P (pubDate a)) \<le> the (Date_getTime P (pubDate b))"
proof -
  from assms(2,3) have ad: "a \<in> set (drop n xs)"
    by (metis Un_iff append_take_drop_id set_append)
  have "sorted_wrt (\<lambda>a b. case (Date_getTime P (pubDate a), Date_getTime P (pubDate b)) of
                          (Some ta, Some tb) \<Rightarrow> tb \<le> ta | _ \<Rightarrow> True) (take n xs @ drop n xs)"
    using assms(1) by (simp add: sortedByPubDateDesc_def)
  with ad assms(4) have r: "case (Date_getTime P (pubDate b), Date_getTime P (pubDate a)) of
                          (Some ta, Some tb) \<Rightarrow> tb \<le> ta | _ \<Rightarrow> True"
    unfolding sorted_wrt_append by blast
  from assms(2,4,5) have "Date_getTime P (pubDate a) \<noteq> None" "Date_getTime P (pubDate b) \<noteq> None"
    by (auto dest: in_set_takeD)
  with r show ?thesis by auto
qed

lemma runFetchCycle_None:
  "mergeFetched P newArticles s = None \<Longrightarrow> runFetchCycle P newArticles s = s"
  by (simp add: runFetchCycle_def)

lemma runFetchCycle_Some:
  "mergeFetched P newArticles s = Some q \<Longrightarrow> pendingArticles (runFetchCycle P newArticles s) = q"
  by (auto simp: runFetchCycle_def mergeFetched_def Let_def uniqueNewArticles_def split: if_splits)

lemma mergeFetched_Some:
  "mergeFetched P newArticles s = Some q \<Longrightarrow>
   q = take MAX_PENDING_ARTICLES
      (Array_sort (\<lambda>a b. timeDiff P (pubDate b) (pubDate a))
         (uniqueArticles P (pendingArticles s @ uniqueNewArticles P newArticles s)))"
  by (auto simp: mergeFetched_def Let_def split: if_splits)

text \<open>
  Claim C2, amended. In the fetch-cycle merge the existing queue entries precede the
  surviving new articles in the concatenation that is deduplicated by normalized link
  keeping the first occurrence, and no surviving new article shares a normalized link
  with a queue entry. So when a just-fetched article shares a normalized link with an
  existing queue entry, the queue after the cycle never holds the fetched copy: an entry
  with that link is an entry of the old queue, the first one with that link when the merge
  ran. That queued copy, with its description and source name, is in the queue after the
  cycle unless the cap evicts it; the queue then has 50 entries, and when all dates parse
  none of them is older than the evicted copy.
\<close>

theorem C2_queued_copy_kept:
  "mergeFetched P newArticles s =
     (if uniqueNewArticles P newArticles s = [] then None
      else Some (take MAX_PENDING_ARTICLES
             (Array_sort (\<lambda>a b. timeDiff P (pubDate b) (pubDate a))
                (uniqueArticles P (pendingArticles s @ uniqueNewArticles P newArticles s)))))
   \<and> (n \<in> set (uniqueNewArticles P newArticles s) \<longrightarrow>
         normalizeUrl P (link n) \<notin> (\<lambda>c. normalizeUrl P (link c)) ` set (pendingArticles s))
   \<and> (b \<in> set (pendingArticles (runFetchCycle P newArticles s))
       \<and> normalizeUrl P (link b) \<in> (\<lambda>c. normalizeUrl P (link c)) ` set (pendingArticles s) \<longrightarrow>
         b \<in> set (pendingArticles s)
         \<and> (mergeFetched P newArticles s \<noteq> None \<longrightarrow>
              find (\<lambda>c. normalizeUrl P (link c) = normalizeUrl P (link b)) (pendingArticles s) = Some b))
   \<and> (find (\<lambda>c. normalizeUrl P (link c) = normalizeUrl P (link a)) (pendingArticles s) = Some a \<longrightarrow>
         (a \<in> set (pendingArticles (runFetchCycle P newArticles s))
          \<or> length (pendingArticles (runFetchCycle P newArticles s)) = 50)
         \<and> (a \<notin> set (pendingArticles (runFetchCycle P newArticles s))
            \<and> (\<forall>x\<in>set (pendingArticles s @ newArticles). Date_getTime P (pubDate x) \<noteq> None) \<longrightarrow>
              (\<forall>c\<in>set (pendingArticles (runFetchCycle P newArticles s)).
                 the (Date_getTime P (pubDate a)) \<le> the (Date_getTime P (pubDate c)))))"
proof -
  let ?key = "\<lambda>c. normalizeUrl P (link c)"
  let ?fresh = "uniqueNewArticles P newArticles s"
  let ?u = "uniqueArticles P (pendingArticles s @ ?fresh)"
  let ?sorted = "Array_sort (\<lambda>a b. timeDiff P (pubDate b) (pubDate a)) ?u"
  let ?q' = "pendingArticles (runFetchCycle P newArticles s)"
  have c1: "mergeFetched P newArticles s =
     (if ?fresh = [] then None else Some (take MAX_PENDING_ARTICLES ?sorted))"
    by (simp add: mergeFetched_def Let_def)
  have c2: "?key n \<notin> ?key ` set (pendingArticles s)" if "n \<in> set ?fresh"
    using that by (auto simp: uniqueNewArticles_def set_urlsToExclude)
  have c3: "b \<in> set (pendingArticles s)
         \<and> (mergeFetched P newArticles s \<noteq> None \<longrightarrow>
              find (\<lambda>c. ?key c = ?key b) (pendingArticles s) = Some b)"
    if h: "b \<in> set ?q' \<and> ?key b \<in> ?key ` set (pendingArticles s)"
  proof (cases "mergeFetched P newArticles s")
    case None
    with h show ?thesis by (simp add: runFetchCycle_None)
  next
    case (Some q)
    from h runFetchCycle_Some[OF Some] have "b \<in> set q" by simp
    with mergeFetched_Some[OF Some] have "b \<in> set ?u"
      using set_Array_sort by (metis in_set_takeD)
    from uniqueArticles_first[OF this] h
    have f: "find (\<lambda>c. ?key c = ?key b) (pendingArticles s) = Some b" by blast
    then have "b \<in> set (pendingArticles s)" by (auto simp: find_Some_iff)
    with f show ?thesis by blast
  qed
  have c4: "(a \<in> set ?q' \<or> length ?q' = 50)
         \<and> (a \<notin> set ?q'
            \<and> (\<forall>x\<in>set (pendingArticles s @ newArticles). Date_getTime P (pubDate x) \<noteq> None) \<longrightarrow>
              (\<forall>c\<in>set ?q'. the (Date_getTime P (pubDate a)) \<le> the (Date_getTime P (pubDate c))))"
    if f: "find (\<lambda>c. ?key c = ?key a) (pendingArticles s) = Some a"
  proof (cases "mergeFetched P newArticles s")
    case None
    from f have "a \<in> set (pendingArticles s)" by (auto simp: find_Some_iff)
    with None show ?thesis by (simp add: runFetchCycle_None)
  next
    case (Some q)
    note q' = runFetchCycle_Some[OF Some]
    note q = mergeFetched_Some[OF Some]
    from uniqueArticles_keeps_first[OF f] have "a \<in> set ?u" .
    then have as: "a \<in> set ?sorted" by (simp add: set_Array_sort)
    from in_take_or_full[OF as, of MAX_PENDING_ARTICLES]
    have p1: "a \<in> set ?q' \<or> length ?q' = 50"
      unfolding q' q by (simp add: MAX_PENDING_ARTICLES_def)
    have p2: "the (Date_getTime P (pubDate a)) \<le> the (Date_getTime P (pubDate c))"
      if na: "a \<notin> set ?q'"
        and all: "\<forall>x\<in>set (pendingArticles s @ newArticles). Date_getTime P (pubDate x) \<noteq> None"
        and c: "c \<in> set ?q'" for c
    proof -
      have "set ?u \<subseteq> set (pendingArticles s @ newArticles)"
        using set_uniqueArticles[of P "pendingArticles s @ ?fresh"]
        by (auto simp: uniqueNewArticles_def)
      with all have pu: "\<forall>x\<in>set ?u. Date_getTime P (pubDate x) \<noteq> None" by blast
      have srt: "sortedByPubDateDesc P ?sorted"
        unfolding Array_sort_sort_key[OF pu] by (rule sortedByPubDateDesc_sort_key[OF pu])
      from pu have ps: "\<forall>x\<in>set ?sorted. Date_getTime P (pubDate x) \<noteq> None"
        by (simp add: set_Array_sort)
      from na c have "a \<notin> set (take MAX_PENDING_ARTICLES ?sorted)"
        "c \<in> set (take MAX_PENDING_ARTICLES ?sorted)"
        unfolding q' q by simp_all
      from sortedByPubDateDesc_evicted[OF srt as this ps] show ?thesis .
    qed
    from p1 p2 show ?thesis by blast
  qed
  show ?thesis
  proof (intro conjI)
    show "mergeFetched P newArticles s =
     (if ?fresh = [] then None else Some (take MAX_PENDING_ARTICLES ?sorted))"
      by (rule c1)
  qed (use c2 c3 c4 in blast)+
qed

theorem C2_queued_copy_kept_witness:
  "exFirst \<in> set (pendingArticles (runFetchCycle exPlatform [exSecond, exFirstAgain] (exState [] [exFirst])))
   \<and> exFirstAgain \<notin> set (pendingArticles (runFetchCycle exPlatform [exSecond, exFirstAgain] (exState [] [exFirst])))
   \<and> exFirstAgain \<notin> set (uniqueNewArticles exPlatform [exSecond, exFirstAgain] (exState [] [exFirst]))
   \<and> exFirst \<notin> set (pendingArticles (runFetchCycle exPlatform (exFirstAgain # exNewer) (exState [] [exFirst])))
   \<and> length (pendingArticles (runFetchCycle exPlatform (exFirstAgain # exNewer) (exState [] [exFirst]))) = 50
   \<and> the (Date_getTime exPlatform (pubDate exFirst))
       \<le> the (Date_getTime exPlatform
                (pubDate (exArticle ''n0'' ''Newer'' ''2024-01-02T00:00:00.000Z'' [])))"
proof -
  let ?s = "exState [] [exFirst]"
  let ?key = "\<lambda>c. normalizeUrl exPlatform (link c)"
  have f: "find (\<lambda>c. ?key c = ?key exFirst) (pendingArticles ?s) = Some exFirst"
    by code_simp
  have k: "?key exFirstAgain \<in> ?key ` set (pendingArticles ?s)"
    by code_simp
  have ne: "exFirstAgain \<notin> set (pendingArticles ?s)"
    by code_simp
  have m1: "mergeFetched exPlatform [exSecond, exFirstAgain] ?s = Some [exSecond, exFirst]"
    by code_simp
  have m2: "mergeFetched exPlatform (exFirstAgain # exNewer) ?s = Some exNewer"
    by code_simp
  have l1: "length [exSecond, exFirst] \<noteq> 50" by simp
  have l2: "exFirst \<notin> set exNewer"
    by code_simp
  have p2: "\<forall>x\<in>set (pendingArticles ?s @ exFirstAgain # exNewer).
              Date_getTime exPlatform (pubDate x) \<noteq> None"
    by code_simp
  note q1 = runFetchCycle_Some[OF m1]
  note q2 = runFetchCycle_Some[OF m2]
  note t1 = C2_queued_copy_kept[where P = exPlatform and newArticles = "[exSecond, exFirstAgain]" and s = ?s
      and a = exFirst and b = exFirstAgain and n = exFirstAgain]
  note t2 = C2_queued_copy_kept[where P = exPlatform and newArticles = "exFirstAgain # exNewer" and s = ?s
      and a = exFirst and b = exFirstAgain and n = exFirstAgain]
  have r1: "exFirst \<in> set (pendingArticles (runFetchCycle exPlatform [exSecond, exFirstAgain] ?s))"
    using t1 f l1 unfolding q1 by blast
  have r2: "exFirstAgain \<notin> set (pendingArticles (runFetchCycle exPlatform [exSecond, exFirstAgain] ?s))"
    using t1 k ne by blast
  have r3: "exFirstAgain \<notin> set (uniqueNewArticles exPlatform [exSecond, exFirstAgain] ?s)"
    using t1 k by blast
  have r4: "exFirst \<notin> set (pendingArticles (runFetchCycle exPlatform (exFirstAgain # exNewer) ?s))"
    unfolding q2 by (rule l2)
  have r5: "length (pendingArticles (runFetchCycle exPlatform (exFirstAgain # exNewer) ?s)) = 50"
    using t2 f r4 by blast
  have l3: "exArticle ''n0'' ''Newer'' ''2024-01-02T00:00:00.000Z'' [] \<in> set exNewer"
    by code_simp
  have r6: "the (Date_getTime exPlatform (pubDate exFirst))
       \<le> the (Date_getTime exPlatform
                (pubDate (exArticle ''n0'' ''Newer'' ''2024-01-02T00:00:00.000Z'' [])))"
    using t2 f r4 p2 l3 unfolding q2 by blast
  from r1 r2 r3 r4 r5 r6 show ?thesis by blast
qed

section \<open>Post cycle\<close>

lemma postLoop_closed:
  "postLoop sub clk i batch (sp, po) =
     (sp @ List.map_filter (\<lambda>(j, x). submitAttempt (sub j) (clk j) x) (enumerate i batch),
      po @ map snd (filter (\<lambda>(j, x). submitAttempt (sub j) (clk j) x \<noteq> None) (enumerate i batch)))"
proof (induction batch arbitrary: i sp po)
  case Nil
  then show ?case by simp
next
  case (Cons x xs)
  show ?case
  proof (cases "submitAttempt (sub i) (clk i) x")
    case None
    then show ?thesis by (simp add: Cons.IH)
  next
    case (Some e)
    then show ?thesis by (simp add: Cons.IH)
  qed
qed

lemma submitAttempt_id: "submitAttempt out now x = Some e \<Longrightarrow> id_p e = link x \<and> url e = link x"
  by (auto simp: submitAttempt_def Let_def split: submit_outcome.splits if_splits)

lemma unknown_error_not_duplicate:
  "\<not> includes_str (toLowerCase ''Unknown error'') ''already been submitted''"
  by code_simp

lemma submitAttempt_duplicate:
  "includes_str (toLowerCase msg) ''already been submitted'' \<Longrightarrow>
   submitAttempt (Rejected_Error msg) now x =
     Some \<lparr>id_p = link x, title_p = title x, url = link x, postedUrl = ''Duplicate'', postedAt = now\<rparr>"
  by (simp add: submitAttempt_def)

lemma submitAttempt_other:
  "\<not> includes_str (toLowerCase msg) ''already been submitted'' \<Longrightarrow>
   submitAttempt (Rejected_Error msg) now x = None"
  "submitAttempt Rejected_Other now x = None"
  using unknown_error_not_duplicate by (simp_all add: submitAttempt_def)

lemma set_slice0: "set (slice0 n xs) \<subseteq> set xs"
  by (auto simp: slice0_def dest: in_set_takeD)

lemma slice0_take: "\<exists>k. slice0 n xs = take k xs"
  by (auto simp: slice0_def)

lemma set_scoreAndFilterArticles: "set (scoreAndFilterArticles P b xs st) \<subseteq> set xs"
  by (auto simp: scoreAndFilterArticles_def Let_def set_Array_sort)

lemma distinct_map_fst_filter_pair:
  assumes "distinct (map f xs)"
  shows "distinct (map (f \<circ> fst) (filter Q (map (\<lambda>a. (a, g a)) xs)))"
proof -
  have "map (f \<circ> fst) (filter Q (map (\<lambda>a. (a, g a)) xs)) = map f (filter (\<lambda>a. Q (a, g a)) xs)"
    by (simp add: filter_map comp_def)
  with assms show ?thesis by (simp add: distinct_map_filter)
qed

lemma distinct_scoreAndFilterArticles:
  assumes "distinct (map f xs)"
  shows "distinct (map f (scoreAndFilterArticles P b xs st))"
  using assms
  by (simp add: scoreAndFilterArticles_def Let_def distinct_map_Array_sort
        distinct_map_fst_filter_pair)

lemma set_articlesToProcess: "set (articlesToProcess P s) \<subseteq> set (pendingArticles s)"
  by (auto simp: articlesToProcess_def Let_def)

lemma articlesToProcess_filter:
  "\<exists>Q. articlesToProcess P s = filter Q (pendingArticles s)"
proof (cases "useProactiveDuplicateCheck (automationSettings s) \<and>
    findLocalSemanticDuplicates (pendingArticles s) (map title_p (take 50 (postingHistory s))) (1 / 2) \<noteq> []")
  case True
  then show ?thesis by (auto simp: articlesToProcess_def Let_def)
next
  case False
  then have "articlesToProcess P s = filter (\<lambda>a. True) (pendingArticles s)"
    by (auto simp: articlesToProcess_def Let_def)
  then show ?thesis by blast
qed

lemma set_articlesToPost: "set (articlesToPost P s) \<subseteq> set (articlesToProcess P s)"
  unfolding articlesToPost_def using set_slice0 set_scoreAndFilterArticles by fast

lemma distinct_articlesToPost:
  assumes "distinct (map f (pendingArticles s))"
  shows "distinct (map f (articlesToPost P s))"
proof -
  obtain Q where "articlesToProcess P s = filter Q (pendingArticles s)"
    using articlesToProcess_filter by blast
  with assms have "distinct (map f (articlesToProcess P s))"
    by (simp add: distinct_map_filter)
  then have d: "distinct (map f (scoreAndFilterArticles P (learnedBiases s) (articlesToProcess P s)
                  (automationSettings s)))"
    by (rule distinct_scoreAndFilterArticles)
  obtain k where "articlesToPost P s = take k (scoreAndFilterArticles P (learnedBiases s)
      (articlesToProcess P s) (automationSettings s))"
    unfolding articlesToPost_def using slice0_take by blast
  with d show ?thesis by (simp add: take_map[symmetric])
qed

lemma posted_nth:
  "snd (postLoop sub clk 0 batch ([], [])) =
     map (\<lambda>j. batch ! j)
       (filter (\<lambda>j. submitAttempt (sub j) (clk j) (batch ! j) \<noteq> None) [0..<length batch])"
  by (simp add: postLoop_closed enumerate_nth filter_map comp_def)

lemma successfulPosts_nth:
  "fst (postLoop sub clk 0 batch ([], [])) =
     map (\<lambda>j. the (submitAttempt (sub j) (clk j) (batch ! j)))
       (filter (\<lambda>j. submitAttempt (sub j) (clk j) (batch ! j) \<noteq> None) [0..<length batch])"
  by (simp add: postLoop_closed enumerate_nth List.map_filter_def filter_map comp_def)

lemma in_posted_iff:
  "x \<in> set (snd (postLoop sub clk 0 batch ([], []))) \<longleftrightarrow>
     (\<exists>j<length batch. x = batch ! j \<and> submitAttempt (sub j) (clk j) (batch ! j) \<noteq> None)"
  by (auto simp: posted_nth)

lemma in_successfulPosts_iff:
  "e \<in> set (fst (postLoop sub clk 0 batch ([], []))) \<longleftrightarrow>
     (\<exists>j<length batch. submitAttempt (sub j) (clk j) (batch ! j) = Some e)"
  by (force simp: successfulPosts_nth)

lemma runPostingCycle_empty_batch:
  assumes "redditAuth s = Some auth" "token auth = Some t" "t \<noteq> []"
    "targetSubreddit (automationSettings s) \<noteq> []" "pendingArticles s \<noteq> []"
    "articlesToPost P s = []"
  shows "runPostingCycle P sub clk s = s\<lparr>pendingArticles := articlesToProcess P s\<rparr>"
  using assms by (simp add: runPostingCycle_def Let_def)

lemma runPostingCycle_none_posted:
  assumes "redditAuth s = Some auth" "token auth = Some t" "t \<noteq> []"
    "targetSubreddit (automationSettings s) \<noteq> []" "pendingArticles s \<noteq> []"
    "articlesToPost P s \<noteq> []" "snd (postLoop sub clk 0 (articlesToPost P s) ([], [])) = []"
  shows "runPostingCycle P sub clk s = s"
  using assms by (simp add: runPostingCycle_def Let_def split_beta)

lemma runPostingCycle_posted:
  assumes "redditAuth s = Some auth" "token auth = Some t" "t \<noteq> []"
    "targetSubreddit (automationSettings s) \<noteq> []" "pendingArticles s \<noteq> []"
    "articlesToPost P s \<noteq> []" "snd (postLoop sub clk 0 (articlesToPost P s) ([], [])) \<noteq> []"
  shows "runPostingCycle P sub clk s =
     s\<lparr>pendingArticles :=
          filter (\<lambda>a. normalizeUrl P (link a) \<notin>
                    (\<lambda>a. normalizeUrl P (link a)) ` set (snd (postLoop sub clk 0 (articlesToPost P s) ([], []))))
            (articlesToProcess P s),
        postingHistory := fst (postLoop sub clk 0 (articlesToPost P s) ([], [])) @ postingHistory s\<rparr>"
  using assms by (simp add: runPostingCycle_def Let_def split_beta set_new_Set)

lemma flagged_not_in_working:
  assumes "useProactiveDuplicateCheck (automationSettings s)"
    and "normalizeUrl P (id_a a) = normalizeUrl P (link a)"
    and "id_a a \<in> set (findLocalSemanticDuplicates (pendingArticles s)
                         (map title_p (take 50 (postingHistory s))) (1 / 2))"
  shows "a \<notin> set (articlesToProcess P s)"
proof -
  from assms(3) have ne: "findLocalSemanticDuplicates (pendingArticles s)
                         (map title_p (take 50 (postingHistory s))) (1 / 2) \<noteq> []" by auto
  from assms(2,3) have "normalizeUrl P (link a) \<in> normalizeUrl P `
      set (findLocalSemanticDuplicates (pendingArticles s)
                         (map title_p (take 50 (postingHistory s))) (1 / 2))"
    by (metis imageI)
  with assms(1) ne show ?thesis
    by (simp add: articlesToProcess_def Let_def set_new_Set)
qed

lemma batch_nonempty_pending:
  "i < length (articlesToPost P s) \<Longrightarrow> pendingArticles s \<noteq> []"
  using set_articlesToPost[of P s] set_articlesToProcess[of P s]
  by (metis empty_iff empty_set nth_mem subsetD)

lemma set_urlsToExclude_history:
  "e \<in> set (postingHistory s) \<Longrightarrow> normalizeUrl P (url e) \<in> set (urlsToExclude P s)"
  by (auto simp: set_urlsToExclude)

lemma words_zelda: "normalizeAndGetWords ''Zelda launch trailer!'' = [''zelda'', ''launch'', ''trailer'']"
  by code_simp

lemma words_posted: "normalizeAndGetWords ''Zelda Launch Trailer'' = [''zelda'', ''launch'', ''trailer'']"
  by code_simp

lemma words_metroid: "normalizeAndGetWords ''Metroid release date'' = [''metroid'', ''release'', ''date'']"
  by code_simp

lemma jaccard_same_ex:
  "calculateJaccardSimilarity [''zelda'', ''launch'', ''trailer''] [''zelda'', ''launch'', ''trailer''] = 1"
  by code_simp

lemma jaccard_other_ex:
  "calculateJaccardSimilarity [''metroid'', ''release'', ''date''] [''zelda'', ''launch'', ''trailer''] = 0"
  by code_simp

lemma normalizeUrl_ex: "normalizeUrl exPlatform u = u"
  by (simp add: normalizeUrl_def exPlatform_def)

lemma exState_fields:
  "redditAuth (exState h q) = Some \<lparr>token = Some ''t0''\<rparr>"
  "automationSettings (exState h q) = exSettings"
  "postingHistory (exState h q) = h"
  "pendingArticles (exState h q) = q"
  "learnedBiases (exState h q) = []"
  by (simp_all add: exState_def)

lemma exSettings_fields:
  "targetSubreddit exSettings = ''gaming''"
  "postLimit exSettings = 2"
  "useProactiveDuplicateCheck exSettings"
  by (simp_all add: exSettings_def)

lemma exZelda_fields: "id_a exZelda = ''a''" "link exZelda = ''a''"
  "title exZelda = ''Zelda launch trailer!''"
  by (simp_all add: exZelda_def exArticle_def)

lemma exMetroid_fields: "id_a exMetroid = ''b''" "link exMetroid = ''b''"
  "title exMetroid = ''Metroid release date''"
  by (simp_all add: exMetroid_def exArticle_def)

lemma flagged1:
  "findLocalSemanticDuplicates [exZelda] [''Zelda Launch Trailer''] (1 / 2) = [''a'']"
  by (simp add: findLocalSemanticDuplicates_def exZelda_fields words_zelda words_posted
        jaccard_same_ex)

lemma flagged2:
  "findLocalSemanticDuplicates [exZelda, exMetroid] [''Zelda Launch Trailer''] (1 / 2) = [''a'']"
  by (simp add: findLocalSemanticDuplicates_def exZelda_fields exMetroid_fields words_zelda
        words_posted words_metroid jaccard_same_ex jaccard_other_ex)

lemma working1: "articlesToProcess exPlatform exStateFlagged1 = []"
  by (simp add: articlesToProcess_def exStateFlagged1_def exState_fields exSettings_fields
        exPosted_def flagged1 normalizeUrl_ex exZelda_fields)

lemma working2: "articlesToProcess exPlatform exStateFlagged2 = [exMetroid]"
  by (simp add: articlesToProcess_def exStateFlagged2_def exState_fields exSettings_fields
        exPosted_def flagged2 normalizeUrl_ex exZelda_fields exMetroid_fields)

lemma score_metroid:
  "scoreAndFilterArticles exPlatform [] [exMetroid] exSettings = [exMetroid]"
  by code_simp

lemma batch1: "articlesToPost exPlatform exStateFlagged1 = []"
  by (simp add: articlesToPost_def working1 scoreAndFilterArticles_def Array_sort_def slice0_def)

lemma batch2: "articlesToPost exPlatform exStateFlagged2 = [exMetroid]"
  unfolding articlesToPost_def working2
  by (simp add: exStateFlagged2_def exState_fields exSettings_fields score_metroid slice0_def)

lemma loop_ok_ex:
  "snd (postLoop exSubmitOk exClock 0 [exMetroid] ([], [])) = [exMetroid]"
  by (simp add: submitAttempt_def exSubmitOk_def)

lemma loop_fail_ex:
  "snd (postLoop exSubmitFail exClock 0 [exMetroid] ([], [])) = []"
  by (simp add: submitAttempt_other exSubmitFail_def)

lemma token_ex: "token \<lparr>token = Some ''t0''\<rparr> = Some ''t0''" "''t0'' \<noteq> []"
  by simp_all

lemma subreddit_ex: "targetSubreddit (automationSettings (exState h q)) \<noteq> []"
  by (simp add: exState_fields exSettings_fields)

lemma exState_running:
  "redditAuth (exState h q) = Some \<lparr>token = Some ''t0''\<rparr>"
  "targetSubreddit (automationSettings (exState h q)) \<noteq> []"
  "useProactiveDuplicateCheck (automationSettings (exState h q))"
  by (simp_all add: exState_fields exSettings_fields)

text \<open>
  Claim C3, as stated, fails: the cycle saves the working set, from which the flagged
  articles were removed, as the new queue. \<open>exZelda\<close> repeats the title of a posted item;
  after a cycle with an empty batch, and after a cycle that posts \<open>exMetroid\<close>, it is no
  longer in the persistent queue.
\<close>

theorem C3_flagged_dropped_counterexample:
  "findLocalSemanticDuplicates (pendingArticles exStateFlagged1)
     (map title_p (take 50 (postingHistory exStateFlagged1))) (1 / 2) = [id_a exZelda]
   \<and> pendingArticles exStateFlagged1 = [exZelda]
   \<and> pendingArticles (runPostingCycle exPlatform exSubmitFail exClock exStateFlagged1) = []
   \<and> findLocalSemanticDuplicates (pendingArticles exStateFlagged2)
     (map title_p (take 50 (postingHistory exStateFlagged2))) (1 / 2) = [id_a exZelda]
   \<and> pendingArticles exStateFlagged2 = [exZelda, exMetroid]
   \<and> pendingArticles (runPostingCycle exPlatform exSubmitOk exClock exStateFlagged2) = []"
proof -
  have p1: "pendingArticles exStateFlagged1 \<noteq> []" and p2: "pendingArticles exStateFlagged2 \<noteq> []"
    by (simp_all add: exStateFlagged1_def exStateFlagged2_def exState_fields)
  have a1: "redditAuth exStateFlagged1 = Some \<lparr>token = Some ''t0''\<rparr>"
    and a2: "redditAuth exStateFlagged2 = Some \<lparr>token = Some ''t0''\<rparr>"
    by (simp_all add: exStateFlagged1_def exStateFlagged2_def exState_fields)
  have t1: "targetSubreddit (automationSettings exStateFlagged1) \<noteq> []"
    and t2: "targetSubreddit (automationSettings exStateFlagged2) \<noteq> []"
    by (simp_all add: exStateFlagged1_def exStateFlagged2_def subreddit_ex)
  have r1: "pendingArticles (runPostingCycle exPlatform exSubmitFail exClock exStateFlagged1) = []"
    using runPostingCycle_empty_batch[OF a1 token_ex t1 p1 batch1]
    by (simp add: working1)
  have b2: "articlesToPost exPlatform exStateFlagged2 \<noteq> []" by (simp add: batch2)
  have l2: "snd (postLoop exSubmitOk exClock 0 (articlesToPost exPlatform exStateFlagged2) ([], [])) \<noteq> []"
    unfolding batch2 loop_ok_ex by simp
  have r2: "pendingArticles (runPostingCycle exPlatform exSubmitOk exClock exStateFlagged2) = []"
    using runPostingCycle_posted[OF a2 token_ex t2 p2 b2 l2]
    unfolding working2 batch2 loop_ok_ex by simp
  show ?thesis
    using r1 r2 flagged1 flagged2
    by (simp add: exStateFlagged1_def exStateFlagged2_def exState_fields exPosted_def exZelda_fields)
qed

text \<open>
  Claim C3, amended. For every post cycle that runs with the duplicate check enabled, an
  article flagged by the semantic duplicate check (its identifier is its link, as the feed
  reader sets it) is removed from the working set, and it is removed from the persistent
  queue when the cycle ends with an empty post batch or after marking at least one
  article posted, because the cycle then saves the working set; the queue is left
  unchanged, so that the flagged article stays and is evaluated again, only when the
  batch is not empty and no submission is marked posted.
\<close>

theorem C3_flagged_leave_queue:
  assumes "redditAuth s = Some auth" "token auth = Some t" "t \<noteq> []"
    and "targetSubreddit (automationSettings s) \<noteq> []"
    and "useProactiveDuplicateCheck (automationSettings s)"
    and "a \<in> set (pendingArticles s)"
    and "normalizeUrl P (id_a a) = normalizeUrl P (link a)"
    and "id_a a \<in> set (findLocalSemanticDuplicates (pendingArticles s)
                         (map title_p (take 50 (postingHistory s))) (1 / 2))"
  shows "a \<notin> set (articlesToProcess P s)
    \<and> (articlesToPost P s = [] \<or> snd (postLoop sub clk 0 (articlesToPost P s) ([], [])) \<noteq> []
         \<longrightarrow> a \<notin> set (pendingArticles (runPostingCycle P sub clk s)))
    \<and> (articlesToPost P s \<noteq> [] \<and> snd (postLoop sub clk 0 (articlesToPost P s) ([], [])) = []
         \<longrightarrow> pendingArticles (runPostingCycle P sub clk s) = pendingArticles s)"
proof -
  from assms(6) have ne: "pendingArticles s \<noteq> []" by auto
  have w: "a \<notin> set (articlesToProcess P s)"
    using assms(5,7,8) by (rule flagged_not_in_working)
  have e: "a \<notin> set (pendingArticles (runPostingCycle P sub clk s))"
    if "articlesToPost P s = []"
    using runPostingCycle_empty_batch[OF assms(1-4) ne that] w by simp
  have y: "a \<notin> set (pendingArticles (runPostingCycle P sub clk s))"
    if "articlesToPost P s \<noteq> []" "snd (postLoop sub clk 0 (articlesToPost P s) ([], [])) \<noteq> []"
    using runPostingCycle_posted[OF assms(1-4) ne that] w by simp
  have n: "pendingArticles (runPostingCycle P sub clk s) = pendingArticles s"
    if "articlesToPost P s \<noteq> []" "snd (postLoop sub clk 0 (articlesToPost P s) ([], [])) = []"
    using runPostingCycle_none_posted[OF assms(1-4) ne that] by simp
  from w e y n show ?thesis by blast
qed

theorem C3_flagged_leave_queue_witness:
  "exZelda \<notin> set (articlesToProcess exPlatform exStateFlagged2)
   \<and> exZelda \<notin> set (pendingArticles (runPostingCycle exPlatform exSubmitOk exClock exStateFlagged2))
   \<and> exZelda \<notin> set (pendingArticles (runPostingCycle exPlatform exSubmitFail exClock exStateFlagged1))
   \<and> pendingArticles (runPostingCycle exPlatform exSubmitFail exClock exStateFlagged2)
       = pendingArticles exStateFlagged2"
proof -
  note run1 = exState_running[of "[exPosted]" "[exZelda]", folded exStateFlagged1_def]
  note run2 = exState_running[of "[exPosted]" "[exZelda, exMetroid]", folded exStateFlagged2_def]
  have in1: "exZelda \<in> set (pendingArticles exStateFlagged1)"
    and in2: "exZelda \<in> set (pendingArticles exStateFlagged2)"
    by (simp_all add: exStateFlagged1_def exStateFlagged2_def exState_fields)
  have n: "normalizeUrl exPlatform (id_a exZelda) = normalizeUrl exPlatform (link exZelda)"
    by (simp add: exZelda_fields)
  have f1: "id_a exZelda \<in> set (findLocalSemanticDuplicates (pendingArticles exStateFlagged1)
              (map title_p (take 50 (postingHistory exStateFlagged1))) (1 / 2))"
    by (simp add: exStateFlagged1_def exState_fields exPosted_def flagged1 exZelda_fields)
  have f2: "id_a exZelda \<in> set (findLocalSemanticDuplicates (pendingArticles exStateFlagged2)
              (map title_p (take 50 (postingHistory exStateFlagged2))) (1 / 2))"
    by (simp add: exStateFlagged2_def exState_fields exPosted_def flagged2 exZelda_fields)
  have l2: "snd (postLoop exSubmitOk exClock 0 (articlesToPost exPlatform exStateFlagged2) ([], [])) \<noteq> []"
    unfolding batch2 loop_ok_ex by simp
  have l3: "articlesToPost exPlatform exStateFlagged2 \<noteq> []
            \<and> snd (postLoop exSubmitFail exClock 0 (articlesToPost exPlatform exStateFlagged2) ([], [])) = []"
    unfolding batch2 loop_fail_ex by simp
  show ?thesis
    using C3_flagged_leave_queue[OF run2(1) token_ex run2(2,3) in2 n f2, of exSubmitOk exClock]
      C3_flagged_leave_queue[OF run1(1) token_ex run1(2,3) in1 n f1, of exSubmitFail exClock]
      C3_flagged_leave_queue[OF run2(1) token_ex run2(2,3) in2 n f2, of exSubmitFail exClock]
      l2 l3 batch1
    by blast
qed

text \<open>Every update of the queue keeps its normalized links pairwise different.\<close>

lemma queue_distinct_runPostingCycle:
  assumes "distinct (map (\<lambda>a. normalizeUrl P (link a)) (pendingArticles s))"
  shows "distinct (map (\<lambda>a. normalizeUrl P (link a))
           (pendingArticles (runPostingCycle P submitPost clock s)))"
proof -
  obtain Q where w: "articlesToProcess P s = filter Q (pendingArticles s)"
    using articlesToProcess_filter by blast
  with assms have dw: "distinct (map (\<lambda>a. normalizeUrl P (link a)) (articlesToProcess P s))"
    by (simp add: distinct_map_filter)
  then have "distinct (map (\<lambda>a. normalizeUrl P (link a)) (filter R (articlesToProcess P s)))" for R
    by (rule distinct_map_filter)
  with assms dw show ?thesis
    by (simp add: runPostingCycle_def Let_def split_beta)
qed

lemma queue_distinct_handleRemoveArticleFromQueue:
  assumes "distinct (map (\<lambda>a. normalizeUrl P (link a)) (pendingArticles s))"
  shows "distinct (map (\<lambda>a. normalizeUrl P (link a))
           (pendingArticles (handleRemoveArticleFromQueue P articleId s)))"
  using assms
  by (simp add: handleRemoveArticleFromQueue_def Let_def distinct_map_filter split: option.splits)

lemma batch_ex: "articlesToPost exPlatform exStateBatch = [exMetroid, exRelease]"
  by code_simp

lemma mixed_ex:
  "exSubmitMixed 0 = Rejected_Error ''That link has already been submitted''"
  "includes_str (toLowerCase ''That link has already been submitted'') ''already been submitted''"
  "exSubmitMixed 1 = Rejected_Error ''RATELIMIT''"
  "\<not> includes_str (toLowerCase ''RATELIMIT'') ''already been submitted''"
  by code_simp+

text \<open>
  Claim C7. In a post cycle over a queue with pairwise different normalized links, for
  the article at position \<open>i\<close> of the batch: when its submission fails with an error
  message that contains \<^verbatim>\<open>already been submitted\<close> (in any case), the cycle adds a history
  entry with the publish location \<^verbatim>\<open>Duplicate\<close>, the article is no longer in the queue, and
  its link is excluded from later fetch merges; when the submission fails in any other way
  the article is still in the queue and the history gains no entry for it.
\<close>

theorem C7_duplicate_failure_terminal:
  assumes auth: "redditAuth s = Some auth" "token auth = Some t" "t \<noteq> []"
      "targetSubreddit (automationSettings s) \<noteq> []"
    and i: "i < length (articlesToPost P s)"
  shows
    "(submitPost i = Rejected_Error msg \<and> includes_str (toLowerCase msg) ''already been submitted'' \<longrightarrow>
        \<lparr>id_p = link (articlesToPost P s ! i), title_p = title (articlesToPost P s ! i),
          url = link (articlesToPost P s ! i), postedUrl = ''Duplicate'', postedAt = clock i\<rparr>
          \<in> set (postingHistory (runPostingCycle P submitPost clock s))
        \<and> articlesToPost P s ! i \<notin> set (pendingArticles (runPostingCycle P submitPost clock s))
        \<and> normalizeUrl P (link (articlesToPost P s ! i))
            \<in> set (urlsToExclude P (runPostingCycle P submitPost clock s)))
     \<and> (distinct (map (\<lambda>a. normalizeUrl P (link a)) (pendingArticles s))
         \<and> (submitPost i = Rejected_Other
              \<or> (submitPost i = Rejected_Error msg
                  \<and> \<not> includes_str (toLowerCase msg) ''already been submitted'')) \<longrightarrow>
        articlesToPost P s ! i \<in> set (pendingArticles (runPostingCycle P submitPost clock s))
        \<and> (\<exists>posts. postingHistory (runPostingCycle P submitPost clock s) = posts @ postingHistory s
              \<and> (\<forall>e\<in>set posts. id_p e \<noteq> link (articlesToPost P s ! i))))"
proof -
  let ?batch = "articlesToPost P s"
  let ?x = "?batch ! i"
  let ?key = "\<lambda>a. normalizeUrl P (link a)"
  let ?loop = "postLoop submitPost clock 0 ?batch ([], [])"
  let ?s' = "runPostingCycle P submitPost clock s"
  from i have ne: "pendingArticles s \<noteq> []" by (rule batch_nonempty_pending)
  from i have bne: "?batch \<noteq> []" by auto
  have xw: "?x \<in> set (articlesToProcess P s)"
    using i set_articlesToPost[of P s] by (meson nth_mem subsetD)
  have same: "j = i"
    if dist: "distinct (map ?key (pendingArticles s))"
      and that: "j < length ?batch" "?key (?batch ! j) = ?key ?x" for j
  proof -
    have dk: "distinct (map ?key ?batch)"
      using dist by (rule distinct_articlesToPost)
    from that i have eq: "map ?key ?batch ! j = map ?key ?batch ! i" by simp
    from that(1) i have "j < length (map ?key ?batch)" "i < length (map ?key ?batch)" by simp_all
    with dk eq show ?thesis using nth_eq_iff_index_eq by blast
  qed
  have dup: "\<lparr>id_p = link ?x, title_p = title ?x, url = link ?x, postedUrl = ''Duplicate'',
               postedAt = clock i\<rparr> \<in> set (postingHistory ?s')
        \<and> ?x \<notin> set (pendingArticles ?s')
        \<and> ?key ?x \<in> set (urlsToExclude P ?s')"
    if o: "submitPost i = Rejected_Error msg"
      and m: "includes_str (toLowerCase msg) ''already been submitted''"
  proof -
    let ?e = "\<lparr>id_p = link ?x, title_p = title ?x, url = link ?x, postedUrl = ''Duplicate'',
               postedAt = clock i\<rparr>"
    have att: "submitAttempt (submitPost i) (clock i) ?x = Some ?e"
      using o m by (simp add: submitAttempt_duplicate)
    with i have xp: "?x \<in> set (snd ?loop)" by (auto simp: in_posted_iff)
    then have pne: "snd ?loop \<noteq> []" by auto
    from att i have ein: "?e \<in> set (fst ?loop)" by (auto simp: in_successfulPosts_iff)
    note run = runPostingCycle_posted[OF auth ne bne pne]
    have h: "?e \<in> set (postingHistory ?s')" using ein by (simp add: run)
    have q: "?x \<notin> set (pendingArticles ?s')" using xp by (simp add: run)
    from set_urlsToExclude_history[OF h, of P] have "?key ?x \<in> set (urlsToExclude P ?s')"
      by simp
    with h q show ?thesis by blast
  qed
  have oth: "?x \<in> set (pendingArticles ?s')
        \<and> (\<exists>posts. postingHistory ?s' = posts @ postingHistory s
              \<and> (\<forall>e\<in>set posts. id_p e \<noteq> link ?x))"
    if dist: "distinct (map ?key (pendingArticles s))"
      and att: "submitAttempt (submitPost i) (clock i) ?x = None"
  proof (cases "snd ?loop = []")
    case True
    from runPostingCycle_none_posted[OF auth ne bne True]
    have run: "?s' = s" .
    have "?x \<in> set (pendingArticles s)"
      using xw set_articlesToProcess[of P s] by blast
    moreover have "postingHistory s = [] @ postingHistory s \<and> (\<forall>e\<in>set []. id_p e \<noteq> link ?x)"
      by simp
    ultimately show ?thesis unfolding run by blast
  next
    case False
    note run = runPostingCycle_posted[OF auth ne bne False]
    have nk: "?key ?x \<notin> ?key ` set (snd ?loop)"
    proof
      assume "?key ?x \<in> ?key ` set (snd ?loop)"
      then obtain y where y: "y \<in> set (snd ?loop)" "?key y = ?key ?x" by auto
      from y(1) obtain j where j: "j < length ?batch" "y = ?batch ! j"
        "submitAttempt (submitPost j) (clock j) (?batch ! j) \<noteq> None"
        by (auto simp: in_posted_iff)
      from same[OF dist j(1)] y(2) j(2) have "j = i" by simp
      with j(3) att show False by simp
    qed
    have p: "?x \<in> set (pendingArticles ?s')"
      using xw nk by (simp add: run)
    have "\<forall>e\<in>set (fst ?loop). id_p e \<noteq> link ?x"
    proof
      fix e assume "e \<in> set (fst ?loop)"
      then obtain j where j: "j < length ?batch"
        "submitAttempt (submitPost j) (clock j) (?batch ! j) = Some e"
        by (auto simp: in_successfulPosts_iff)
      show "id_p e \<noteq> link ?x"
      proof
        assume "id_p e = link ?x"
        with submitAttempt_id[OF j(2)] have "link (?batch ! j) = link ?x" by simp
        then have "?key (?batch ! j) = ?key ?x" by simp
        from same[OF dist j(1) this] j(2) att show False by simp
      qed
    qed
    moreover have "postingHistory ?s' = fst ?loop @ postingHistory s"
      by (simp add: run)
    ultimately show ?thesis using p by blast
  qed
  have o1: "submitAttempt (submitPost i) (clock i) ?x = None" if "submitPost i = Rejected_Other"
    using that by (simp add: submitAttempt_other)
  have o2: "submitAttempt (submitPost i) (clock i) ?x = None"
    if "submitPost i = Rejected_Error msg" "\<not> includes_str (toLowerCase msg) ''already been submitted''"
    using that by (simp add: submitAttempt_other)
  have none: "submitAttempt (submitPost i) (clock i) ?x = None"
    if "submitPost i = Rejected_Other
         \<or> (submitPost i = Rejected_Error msg
             \<and> \<not> includes_str (toLowerCase msg) ''already been submitted'')"
    using that o1 o2 by (elim disjE conjE)
  show ?thesis
  proof (intro conjI impI)
    assume "submitPost i = Rejected_Error msg
            \<and> includes_str (toLowerCase msg) ''already been submitted''"
    then have a: "submitPost i = Rejected_Error msg"
      and b: "includes_str (toLowerCase msg) ''already been submitted''" by simp_all
    from dup[OF a b]
    show "\<lparr>id_p = link ?x, title_p = title ?x, url = link ?x, postedUrl = ''Duplicate'',
            postedAt = clock i\<rparr> \<in> set (postingHistory ?s')"
      and "?x \<notin> set (pendingArticles ?s')"
      and "?key ?x \<in> set (urlsToExclude P ?s')"
      by simp_all
  next
    assume "distinct (map ?key (pendingArticles s))
         \<and> (submitPost i = Rejected_Other
              \<or> (submitPost i = Rejected_Error msg
                  \<and> \<not> includes_str (toLowerCase msg) ''already been submitted''))"
    then have dist: "distinct (map ?key (pendingArticles s))"
      and c: "submitPost i = Rejected_Other
         \<or> (submitPost i = Rejected_Error msg
             \<and> \<not> includes_str (toLowerCase msg) ''already been submitted'')"
      by simp_all
    from oth[OF dist none[OF c]]
    show "?x \<in> set (pendingArticles ?s')"
      and "\<exists>posts. postingHistory ?s' = posts @ postingHistory s
              \<and> (\<forall>e\<in>set posts. id_p e \<noteq> link ?x)"
      by simp_all
  qed
qed

theorem C7_duplicate_failure_terminal_witness:
  "\<lparr>id_p = ''b'', title_p = ''Metroid release date'', url = ''b'', postedUrl = ''Duplicate'',
     postedAt = exClock 0\<rparr>
      \<in> set (postingHistory (runPostingCycle exPlatform exSubmitMixed exClock exStateBatch))
   \<and> exMetroid \<notin> set (pendingArticles (runPostingCycle exPlatform exSubmitMixed exClock exStateBatch))
   \<and> exRelease \<in> set (pendingArticles (runPostingCycle exPlatform exSubmitMixed exClock exStateBatch))"
proof -
  note run = exState_running[of "[]" "[exRelease, exMetroid]", folded exStateBatch_def]
  have d: "distinct (map (\<lambda>a. normalizeUrl exPlatform (link a)) (pendingArticles exStateBatch))"
    by (simp add: exStateBatch_def exState_fields normalizeUrl_ex exMetroid_fields
          exRelease_def exArticle_def)
  have i0: "0 < length (articlesToPost exPlatform exStateBatch)"
    and i1: "1 < length (articlesToPost exPlatform exStateBatch)"
    by (simp_all add: batch_ex)
  have n: "articlesToPost exPlatform exStateBatch ! 0 = exMetroid"
    "articlesToPost exPlatform exStateBatch ! 1 = exRelease"
    by (simp_all add: batch_ex)
  show ?thesis
    using C7_duplicate_failure_terminal[OF run(1) token_ex run(2) i0, of exSubmitMixed
          "''That link has already been submitted''" exClock]
      C7_duplicate_failure_terminal[OF run(1) token_ex run(2) i1, of exSubmitMixed
          "''RATELIMIT''" exClock]
      mixed_ex d
    unfolding n by (simp add: exMetroid_fields)
qed

end
